theory Spec2Isabelle
  imports Main "HOL-Library.AList"
begin

section \<open>JavaScript string and array primitives used by the storage code\<close>

text \<open>
  Strings are lists of characters. \<open>splitOn c s\<close> is \<^verbatim>\<open>s.split(c)\<close> for a one-character
  separator: the empty string splits into one empty part, and a trailing separator leaves an
  empty last part.
\<close>

fun splitOn :: "char \<Rightarrow> string \<Rightarrow> string list" where
  "splitOn c [] = [[]]"
| "splitOn c (x # xs) =
     (if x = c then [] # splitOn c xs
      else (case splitOn c xs of [] \<Rightarrow> [[x]] | p # ps \<Rightarrow> (x # p) # ps))"

text \<open>\<^verbatim>\<open>parts.join(sep)\<close> on an array of strings.\<close>

fun joinWith :: "string \<Rightarrow> string list \<Rightarrow> string" where
  "joinWith sep [] = []"
| "joinWith sep [p] = p"
| "joinWith sep (p # q # ps) = p @ sep @ joinWith sep (q # ps)"

text \<open>\<^verbatim>\<open>parts.slice(-n)\<close>: the last \<open>n\<close> elements, all of them when there are fewer.\<close>

definition sliceLast :: "nat \<Rightarrow> 'a list \<Rightarrow> 'a list" where
  "sliceLast n xs = drop (length xs - n) xs"

text \<open>\<^verbatim>\<open>s.slice(a, b)\<close> for non-negative indices: both ends are clamped to the length.\<close>

definition slice :: "'a list \<Rightarrow> nat \<Rightarrow> nat \<Rightarrow> 'a list" where
  "slice xs a b = take (min b (length xs) - min a (length xs)) (drop (min a (length xs)) xs)"

text \<open>\<^verbatim>\<open>s.startsWith(p)\<close>.\<close>

definition startsWith :: "string \<Rightarrow> string \<Rightarrow> bool" where
  "startsWith s p = (take (length p) s = p)"

text \<open>The decimal rendering of a loop index inside a template literal.\<close>

definition digit :: "nat \<Rightarrow> char" where
  "digit d = char_of (48 + d)"

fun string_of_nat :: "nat \<Rightarrow> string" where
  "string_of_nat n = (if n < 10 then [digit n] else string_of_nat (n div 10) @ [digit (n mod 10)])"

declare string_of_nat.simps [simp del]

section \<open>Domain utilities\<close>

text \<open>\<^verbatim>\<open>getMainDomain\<close> of \<^verbatim>\<open>src/utils.js\<close>.\<close>

definition specialTlds_utils :: "string list" where
  "specialTlds_utils = [''co.uk'', ''com.au'', ''co.jp'', ''co.nz'', ''co.in'']"

definition getMainDomain_utils :: "string \<Rightarrow> string" where
  "getMainDomain_utils domain =
     (let parts = splitOn (CHR ''.'') domain in
      if length parts \<le> 2 then domain
      else
        let lastTwo = joinWith ''.'' (sliceLast 2 parts) in
        if lastTwo \<in> set specialTlds_utils then joinWith ''.'' (sliceLast 3 parts)
        else joinWith ''.'' (sliceLast 2 parts))"

text \<open>\<^verbatim>\<open>getMainDomain\<close> of \<^verbatim>\<open>src/background.js\<close>.\<close>

definition specialTlds_background :: "string list" where
  "specialTlds_background = [''co.uk'', ''com.au'', ''co.jp'', ''co.nz'']"

definition getMainDomain_background :: "string \<Rightarrow> string" where
  "getMainDomain_background domain =
     (let parts = splitOn (CHR ''.'') domain in
      if length parts \<le> 2 then domain
      else
        let lastTwo = joinWith ''.'' (sliceLast 2 parts) in
        if lastTwo \<in> set specialTlds_background then joinWith ''.'' (sliceLast 3 parts)
        else joinWith ''.'' (sliceLast 2 parts))"

section \<open>Chunk codec\<close>

text \<open>
  The splitting loop shared by \<^verbatim>\<open>saveWithChunks\<close> (utils.js, chunk size 8000) and
  \<^verbatim>\<open>saveWithChunking\<close> (background.js, chunk size 7000):
  \<^verbatim>\<open>for (let i = 0; i < s.length; i += chunkSize) chunks.push(s.slice(i, i + chunkSize))\<close>.
  With a chunk size of zero the loop never ends on a non-empty string, so the loop is a
  partial function and \<open>None\<close> stands for not returning.
\<close>

partial_function (option) split_loop ::
  "nat \<Rightarrow> string \<Rightarrow> nat \<Rightarrow> string list \<Rightarrow> string list option" where
  "split_loop chunkSize str i chunks =
     (if i < length str
      then split_loop chunkSize str (i + chunkSize) (chunks @ [slice str i (i + chunkSize)])
      else Some chunks)"

declare split_loop.simps [code]

definition splitChunks :: "nat \<Rightarrow> string \<Rightarrow> string list option" where
  "splitChunks chunkSize str = split_loop chunkSize str 0 []"

definition chunkSize_utils :: nat where
  "chunkSize_utils = 8000"

definition CHUNK_SIZE :: nat where
  "CHUNK_SIZE = 7000"

definition CHUNK_PREFIX :: string where
  "CHUNK_PREFIX = ''chunk_''"

section \<open>Stored values and the backing store\<close>

text \<open>
  What \<^verbatim>\<open>chrome.storage\<close> holds, as far as the storage code looks at it: a string (a fragment
  or a compressed record), an object, or an array of \<^verbatim>\<open>{name, timestamp}\<close> entries (a domain's
  profile list). An object is seen through the properties the code reads or writes; a property
  that is absent (\<^verbatim>\<open>undefined\<close>) is \<open>None\<close>, and an absent \<^verbatim>\<open>isChunked\<close> is \<open>False\<close>.
\<close>

type_synonym cookie = "string \<times> string"

record page_storage =
  localStorage :: "(string \<times> string) list"
  sessionStorage :: "(string \<times> string) list"

record obj =
  lastAccessed :: "int option"
  timestamp :: "int option"
  isChunked :: bool
  chunkCount :: "nat option"
  chunkKeys :: "string list option"
  chunks :: "nat option"
  cookies :: "cookie list option"
  page :: "page_storage option"

datatype jsval = Str string | Obj obj | Arr "(string \<times> int) list"

definition empty_obj :: obj where
  "empty_obj = \<lparr>lastAccessed = None, timestamp = None, isChunked = False, chunkCount = None,
     chunkKeys = None, chunks = None, cookies = None, page = None\<rparr>"

text \<open>JavaScript truthiness of a looked-up value; \<open>None\<close> is \<^verbatim>\<open>undefined\<close>.\<close>

fun truthy :: "jsval option \<Rightarrow> bool" where
  "truthy None = False"
| "truthy (Some (Str s)) = (s \<noteq> [])"
| "truthy (Some (Obj _)) = True"
| "truthy (Some (Arr _)) = True"

text \<open>
  How \<^verbatim>\<open>Array.prototype.join\<close> renders an element: \<^verbatim>\<open>undefined\<close> becomes the empty string,
  anything else its \<^verbatim>\<open>toString()\<close>.
\<close>

fun toJoinString :: "jsval option \<Rightarrow> string" where
  "toJoinString None = []"
| "toJoinString (Some (Str s)) = s"
| "toJoinString (Some (Obj _)) = ''[object Object]''"
| "toJoinString (Some (Arr xs)) = joinWith '','' (map (\<lambda>_. ''[object Object]'') xs)"

definition joinVals :: "jsval option list \<Rightarrow> string" where
  "joinVals vals = concat (map toJoinString vals)"

text \<open>
  The failures a storage call can be rejected with, the two storage areas, and the trace of
  what the code did to the store. The store is an association list in enumeration order.
  Each storage call consumes the head of \<open>faults\<close>: \<open>Some f\<close> rejects the call with \<open>f\<close>,
  \<open>None\<close> or an exhausted script lets it through.
\<close>

datatype failure = QuotaExceeded | RateLimited | TransientError

datatype area = Sync | Local

datatype event =
    SetOk area string
  | SetFailed area string failure
  | GetOk area string
  | GetFailed area string failure
  | GetAllOk area
  | GetAllFailed area failure
  | RemoveOk area "string list"
  | RemoveFailed area "string list" failure
  | Sleep nat

record world =
  sync_items :: "(string \<times> jsval) list"
  local_items :: "(string \<times> jsval) list"
  faults :: "failure option list"
  events :: "event list"

datatype error =
    StorageError failure | SyntaxError | TypeError | InvalidCharacterError | CodecError
  | Message string

definition items :: "area \<Rightarrow> world \<Rightarrow> (string \<times> jsval) list" where
  "items a w = (case a of Sync \<Rightarrow> sync_items w | Local \<Rightarrow> local_items w)"

definition put_items ::
  "area \<Rightarrow> ((string \<times> jsval) list \<Rightarrow> (string \<times> jsval) list) \<Rightarrow> world \<Rightarrow> world" where
  "put_items a f w =
     (case a of Sync \<Rightarrow> w\<lparr>sync_items := f (sync_items w)\<rparr>
              | Local \<Rightarrow> w\<lparr>local_items := f (local_items w)\<rparr>)"

definition next_fault :: "world \<Rightarrow> failure option \<times> world" where
  "next_fault w = (case faults w of [] \<Rightarrow> (None, w) | f # fs \<Rightarrow> (f, w\<lparr>faults := fs\<rparr>))"

definition record_event :: "event \<Rightarrow> world \<Rightarrow> world" where
  "record_event e w = w\<lparr>events := events w @ [e]\<rparr>"

text \<open>\<^verbatim>\<open>storage.set({[k]: v})\<close>, \<^verbatim>\<open>storage.get(k)\<close>, \<^verbatim>\<open>storage.get(null)\<close>, \<^verbatim>\<open>storage.remove(ks)\<close>.\<close>

definition storage_set :: "area \<Rightarrow> string \<Rightarrow> jsval \<Rightarrow> world \<Rightarrow> (failure + unit) \<times> world" where
  "storage_set a k v w =
     (case next_fault w of
        (Some f, w1) \<Rightarrow> (Inl f, record_event (SetFailed a k f) w1)
      | (None, w1) \<Rightarrow> (Inr (), record_event (SetOk a k) (put_items a (AList.update k v) w1)))"

definition storage_get :: "area \<Rightarrow> string \<Rightarrow> world \<Rightarrow> (failure + jsval option) \<times> world" where
  "storage_get a k w =
     (case next_fault w of
        (Some f, w1) \<Rightarrow> (Inl f, record_event (GetFailed a k f) w1)
      | (None, w1) \<Rightarrow> (Inr (map_of (items a w1) k), record_event (GetOk a k) w1))"

definition storage_get_all :: "area \<Rightarrow> world \<Rightarrow> (failure + (string \<times> jsval) list) \<times> world" where
  "storage_get_all a w =
     (case next_fault w of
        (Some f, w1) \<Rightarrow> (Inl f, record_event (GetAllFailed a f) w1)
      | (None, w1) \<Rightarrow> (Inr (items a w1), record_event (GetAllOk a) w1))"

definition storage_remove :: "area \<Rightarrow> string list \<Rightarrow> world \<Rightarrow> (failure + unit) \<times> world" where
  "storage_remove a ks w =
     (case next_fault w of
        (Some f, w1) \<Rightarrow> (Inl f, record_event (RemoveFailed a ks f) w1)
      | (None, w1) \<Rightarrow>
          (Inr (), record_event (RemoveOk a ks)
                     (put_items a (filter (\<lambda>kv. fst kv \<notin> set ks)) w1)))"

text \<open>\<^verbatim>\<open>await new Promise(resolve => setTimeout(resolve, ms))\<close>.\<close>

definition sleep :: "nat \<Rightarrow> world \<Rightarrow> world" where
  "sleep ms w = record_event (Sleep ms) w"

section \<open>Compression wrappers of utils.js\<close>

text \<open>
  \<^verbatim>\<open>btoa\<close> and \<^verbatim>\<open>atob\<close>. A JavaScript string is a list of code units here; \<^verbatim>\<open>btoa\<close> throws
  on a code unit above 255. \<^verbatim>\<open>atob\<close> drops ASCII whitespace, drops one or two trailing
  \<^verbatim>\<open>=\<close> when the length is a multiple of four, fails on a remaining length of 1 modulo 4 and
  on any character outside the alphabet, and discards the bits that do not fill a byte.
\<close>

definition b64alphabet :: string where
  "b64alphabet = ''ABCDEFGHIJKLMNOPQRSTUVWXYZabcdefghijklmnopqrstuvwxyz0123456789+/''"

definition b64char :: "nat \<Rightarrow> char" where
  "b64char n = b64alphabet ! n"

fun indexOf :: "'a \<Rightarrow> 'a list \<Rightarrow> nat option" where
  "indexOf x [] = None"
| "indexOf x (y # ys) = (if x = y then Some 0 else map_option Suc (indexOf x ys))"

definition b64val :: "char \<Rightarrow> nat option" where
  "b64val c = indexOf c b64alphabet"

fun b64encode :: "nat list \<Rightarrow> string" where
  "b64encode (a # b # c # rest) =
     [b64char (a div 4), b64char ((a mod 4) * 16 + b div 16),
      b64char ((b mod 16) * 4 + c div 64), b64char (c mod 64)] @ b64encode rest"
| "b64encode [a, b] =
     [b64char (a div 4), b64char ((a mod 4) * 16 + b div 16), b64char ((b mod 16) * 4), CHR ''='']"
| "b64encode [a] = [b64char (a div 4), b64char ((a mod 4) * 16), CHR ''='', CHR ''='']"
| "b64encode [] = []"

definition btoa :: "nat list \<Rightarrow> string option" where
  "btoa s = (if list_all (\<lambda>u. u < 256) s then Some (b64encode s) else None)"

fun b64decode :: "nat list \<Rightarrow> nat list option" where
  "b64decode (p # q # r # s # rest) =
     map_option (\<lambda>bs. [p * 4 + q div 16, (q mod 16) * 16 + r div 4, (r mod 4) * 64 + s] @ bs)
       (b64decode rest)"
| "b64decode [p, q, r] = Some [p * 4 + q div 16, (q mod 16) * 16 + r div 4]"
| "b64decode [p, q] = Some [p * 4 + q div 16]"
| "b64decode [p] = None"
| "b64decode [] = Some []"

definition asciiWhitespace :: "char \<Rightarrow> bool" where
  "asciiWhitespace c = (c \<in> set [CHR 0x09, CHR 0x0A, CHR 0x0C, CHR 0x0D, CHR 0x20])"

definition stripPadding :: "string \<Rightarrow> string" where
  "stripPadding s =
     (if length s mod 4 = 0 \<and> s \<noteq> [] \<and> last s = CHR ''='' then
        (if butlast s \<noteq> [] \<and> last (butlast s) = CHR ''='' then butlast (butlast s) else butlast s)
      else s)"

definition atob :: "string \<Rightarrow> nat list option" where
  "atob encoded =
     (let stripped = stripPadding (filter (\<lambda>c. \<not> asciiWhitespace c) encoded) in
      if length stripped mod 4 = 1 then None
      else (case those (map b64val stripped) of
              None \<Rightarrow> None
            | Some sextets \<Rightarrow> b64decode sextets))"

text \<open>\<^verbatim>\<open>String.fromCharCode.apply(null, numbers)\<close>: each number is taken modulo 65536.\<close>

definition fromCharCodes :: "int list \<Rightarrow> nat list" where
  "fromCharCodes ns = map (\<lambda>n. nat (n mod 65536)) ns"

text \<open>
  How an asynchronous call ends: its promise is resolved with a value, rejected with an
  error, or never settled, and then the caller waits for ever.
\<close>

datatype 'a promise = Resolved 'a | Rejected error | NeverSettled

text \<open>
  \<^verbatim>\<open>compressData(data)\<close>. \<open>serialize\<close> is \<^verbatim>\<open>JSON.stringify\<close> followed by
  \<^verbatim>\<open>TextEncoder.encode\<close>; \<open>lzma_compress\<close> is the round trip to the LZMA worker at level 9,
  \<open>None\<close> when no answer with the call's id arrives, and then the 30 second timer rejects the
  promise. When the answer arrives the handler calls \<^verbatim>\<open>clearTimeout\<close> first and \<^verbatim>\<open>btoa\<close>
  after it, so an exception of \<^verbatim>\<open>btoa\<close> is thrown inside the handler with the timer gone:
  the promise is neither resolved nor rejected.
\<close>

definition compressData ::
  "('v \<Rightarrow> int list) \<Rightarrow> (int list \<Rightarrow> int list option) \<Rightarrow> 'v \<Rightarrow> string promise" where
  "compressData serialize lzma_compress d =
     (case lzma_compress (serialize d) of
        None \<Rightarrow> Rejected (Message ''Compression timeout'')
      | Some result \<Rightarrow>
          (case btoa (fromCharCodes result) of
             None \<Rightarrow> NeverSettled
           | Some base64 \<Rightarrow> Resolved base64))"

text \<open>
  \<^verbatim>\<open>decompressData(compressedData)\<close>. \<^verbatim>\<open>atob\<close> runs before the promise is made, so its
  exception is caught and rethrown: the call is rejected with it. The \<^verbatim>\<open>Uint8Array\<close> takes
  each char code modulo 256. \<open>lzma_decompress\<close> is the round trip to the worker, \<open>None\<close>
  when no answer with the call's id arrives, and then the 30 second timer rejects the promise.
  \<open>deserialize\<close> is \<^verbatim>\<open>TextDecoder.decode\<close> followed by \<^verbatim>\<open>JSON.parse\<close>, \<open>None\<close> when
  either throws. They run inside the handler after \<^verbatim>\<open>clearTimeout\<close>, so when they throw the
  promise is neither resolved nor rejected.
\<close>

definition decompressData ::
  "(int list \<Rightarrow> 'v option) \<Rightarrow> (int list \<Rightarrow> int list option) \<Rightarrow> string \<Rightarrow> 'v promise" where
  "decompressData deserialize lzma_decompress compressedData =
     (case atob compressedData of
        None \<Rightarrow> Rejected InvalidCharacterError
      | Some binary \<Rightarrow>
          (case lzma_decompress (map (\<lambda>u. int (u mod 256)) binary) of
             None \<Rightarrow> Rejected (Message ''Decompression timeout'')
           | Some result \<Rightarrow>
               (case deserialize result of
                  None \<Rightarrow> NeverSettled
                | Some v \<Rightarrow> Resolved v)))"

text \<open>An array of numbers that are all bytes.\<close>

definition isBytes :: "int list \<Rightarrow> bool" where
  "isBytes bs = list_all (\<lambda>x. 0 \<le> x \<and> x < 256) bs"

text \<open>
  Modelled from the spec: the LZMA codec that the worker runs (\<^verbatim>\<open>lzma_worker.min.js\<close>) is not
  among the sources. Section 4.1 of the specification gives its contract: \<^verbatim>\<open>compress\<close> takes
  bytes to compressed bytes, \<^verbatim>\<open>decompress\<close> takes compressed bytes back to bytes, and
  \<^verbatim>\<open>decompress(compress(b)) == b\<close> for every byte string, the empty one included. Here the
  two worker round trips are functions on arrays of numbers, \<open>None\<close> when no answer arrives,
  and the contract says: on every array of bytes the compressor answers with an array of
  bytes, and the decompressor answers that array with the original.
\<close>

definition losslessCodec ::
  "(int list \<Rightarrow> int list option) \<Rightarrow> (int list \<Rightarrow> int list option) \<Rightarrow> bool" where
  "losslessCodec lzma_compress lzma_decompress =
     (\<forall>bs. isBytes bs \<longrightarrow>
        (\<exists>c. lzma_compress bs = Some c \<and> isBytes c \<and> lzma_decompress c = Some bs))"

section \<open>Chunked save and load in background.js\<close>

definition chunkKey :: "string \<Rightarrow> nat \<Rightarrow> string" where
  "chunkKey key i = CHUNK_PREFIX @ key @ ''_'' @ string_of_nat i"

text \<open>
  The fragment loop of \<^verbatim>\<open>saveWithChunking\<close>: for each index in turn, push the fragment key and
  await the write; a rejected write throws out of the loop.
\<close>

function writeChunks ::
  "string \<Rightarrow> string list \<Rightarrow> nat \<Rightarrow> string list \<Rightarrow> world \<Rightarrow> (failure + string list) \<times> world" where
  "writeChunks key cs i cks w =
     (if i < length cs then
        (case storage_set Sync (chunkKey key i) (Str (cs ! i)) w of
           (Inl f, w1) \<Rightarrow> (Inl f, w1)
         | (Inr u, w1) \<Rightarrow> writeChunks key cs (Suc i) (cks @ [chunkKey key i]) w1)
      else (Inr cks, w))"
  by pat_completeness auto
termination
  by (relation "measure (\<lambda>(key, cs, i, cks, w). length cs - i)") auto

declare writeChunks.simps [simp del]

text \<open>
  \<^verbatim>\<open>saveWithChunking(key, data)\<close>. \<^verbatim>\<open>JSON.stringify\<close> and \<^verbatim>\<open>Date.now()\<close> are parameters.
\<close>

definition saveWithChunking ::
  "(jsval \<Rightarrow> string) \<Rightarrow> int \<Rightarrow> string \<Rightarrow> jsval \<Rightarrow> world \<Rightarrow> ((error + bool) \<times> world) option" where
  "saveWithChunking stringify now key data w =
     (case splitChunks CHUNK_SIZE (stringify data) of
        None \<Rightarrow> None
      | Some cs \<Rightarrow> Some
          (case writeChunks key cs 0 [] w of
             (Inl f, w1) \<Rightarrow> (Inl (StorageError f), w1)
           | (Inr cks, w1) \<Rightarrow>
               (case storage_set Sync key
                       (Obj (empty_obj\<lparr>isChunked := True, chunkCount := Some (length cs),
                                       chunkKeys := Some cks, timestamp := Some now\<rparr>)) w1 of
                  (Inl f, w2) \<Rightarrow> (Inl (StorageError f), w2)
                | (Inr u, w2) \<Rightarrow> (Inr True, w2))))"

text \<open>
  \<^verbatim>\<open>Promise.all(keys.map(k => storage.get(k)))\<close>: every read is issued, in order; the result is
  the list of values, or the first rejection.
\<close>

fun getAll :: "string list \<Rightarrow> world \<Rightarrow> (failure + jsval option) list \<times> world" where
  "getAll [] w = ([], w)"
| "getAll (k # ks) w =
     (case storage_get Sync k w of (r, w1) \<Rightarrow> (case getAll ks w1 of (rs, w2) \<Rightarrow> (r # rs, w2)))"

fun promiseAll :: "(failure + 'a) list \<Rightarrow> failure + 'a list" where
  "promiseAll [] = Inr []"
| "promiseAll (Inl f # rs) = Inl f"
| "promiseAll (Inr x # rs) = (case promiseAll rs of Inl f \<Rightarrow> Inl f | Inr xs \<Rightarrow> Inr (x # xs))"

text \<open>
  \<^verbatim>\<open>getChunkedData(key, metadata)\<close>. \<^verbatim>\<open>JSON.parse\<close> is a parameter; \<open>None\<close> is its
  \<^verbatim>\<open>SyntaxError\<close>. Calling \<^verbatim>\<open>.map\<close> on an absent \<^verbatim>\<open>chunkKeys\<close> is a \<^verbatim>\<open>TypeError\<close>.
\<close>

definition getChunkedData ::
  "(string \<Rightarrow> jsval option) \<Rightarrow> string \<Rightarrow> obj \<Rightarrow> world \<Rightarrow> (error + jsval) \<times> world" where
  "getChunkedData parse key metadata w =
     (if \<not> isChunked metadata then (Inr (Obj metadata), w)
      else
        (case chunkKeys metadata of
           None \<Rightarrow> (Inl TypeError, w)
         | Some ks \<Rightarrow>
             (case getAll ks w of
                (rs, w1) \<Rightarrow>
                  (case promiseAll rs of
                     Inl f \<Rightarrow> (Inl (StorageError f), w1)
                   | Inr vals \<Rightarrow>
                       (case parse (joinVals vals) of
                          None \<Rightarrow> (Inl SyntaxError, w1)
                        | Some v \<Rightarrow> (Inr v, w1))))))"

section \<open>Chunked save and load in utils.js\<close>

definition maxRetries :: nat where
  "maxRetries = 3"

definition storageArea :: "bool \<Rightarrow> area" where
  "storageArea useLocal = (if useLocal then Local else Sync)"

definition utilsChunkKey :: "string \<Rightarrow> nat \<Rightarrow> string" where
  "utilsChunkKey key i = key @ ''_chunk_'' @ string_of_nat i"

definition metaKey :: "string \<Rightarrow> string" where
  "metaKey key = key @ ''_meta''"

text \<open>
  The retry loop around one fragment write in \<^verbatim>\<open>saveWithChunks\<close>:
  \<^verbatim>\<open>while (retries < maxRetries) { try { await storage.set(..); break; }
    catch (error) { retries++; if (retries === maxRetries) throw error; await sleep(100 * retries); } }\<close>.
  The \<^verbatim>\<open>catch\<close> clause does not look at the error.
\<close>

function setWithRetries ::
  "area \<Rightarrow> string \<Rightarrow> jsval \<Rightarrow> nat \<Rightarrow> world \<Rightarrow> (failure + unit) \<times> world" where
  "setWithRetries a k v retries w =
     (if retries < maxRetries then
        (case storage_set a k v w of
           (Inr u, w1) \<Rightarrow> (Inr (), w1)
         | (Inl f, w1) \<Rightarrow>
             (if Suc retries = maxRetries then (Inl f, w1)
              else setWithRetries a k v (Suc retries) (sleep (100 * Suc retries) w1)))
      else (Inr (), w))"
  by pat_completeness auto
termination
  by (relation "measure (\<lambda>(a, k, v, retries, w). maxRetries - retries)") auto

declare setWithRetries.simps [simp del]

text \<open>The same loop around one fragment read in \<^verbatim>\<open>loadFromChunks\<close>.\<close>

function getWithRetries ::
  "area \<Rightarrow> string \<Rightarrow> nat \<Rightarrow> world \<Rightarrow> (failure + jsval option list) \<times> world" where
  "getWithRetries a k retries w =
     (if retries < maxRetries then
        (case storage_get a k w of
           (Inr v, w1) \<Rightarrow> (Inr [v], w1)
         | (Inl f, w1) \<Rightarrow>
             (if Suc retries = maxRetries then (Inl f, w1)
              else getWithRetries a k (Suc retries) (sleep (100 * Suc retries) w1)))
      else (Inr [], w))"
  by pat_completeness auto
termination
  by (relation "measure (\<lambda>(a, k, retries, w). maxRetries - retries)") auto

declare getWithRetries.simps [simp del]

text \<open>The fragment loops: each fragment in index order, each with its own retry loop.\<close>

function writeChunksRetrying ::
  "area \<Rightarrow> string \<Rightarrow> string list \<Rightarrow> nat \<Rightarrow> world \<Rightarrow> (failure + unit) \<times> world" where
  "writeChunksRetrying a key cs i w =
     (if i < length cs then
        (case setWithRetries a (utilsChunkKey key i) (Str (cs ! i)) 0 w of
           (Inl f, w1) \<Rightarrow> (Inl f, w1)
         | (Inr u, w1) \<Rightarrow> writeChunksRetrying a key cs (Suc i) w1)
      else (Inr (), w))"
  by pat_completeness auto
termination
  by (relation "measure (\<lambda>(a, key, cs, i, w). length cs - i)") auto

declare writeChunksRetrying.simps [simp del]

function readChunksRetrying ::
  "area \<Rightarrow> string \<Rightarrow> nat \<Rightarrow> nat \<Rightarrow> jsval option list \<Rightarrow> world
     \<Rightarrow> (failure + jsval option list) \<times> world" where
  "readChunksRetrying a key n i acc w =
     (if i < n then
        (case getWithRetries a (utilsChunkKey key i) 0 w of
           (Inl f, w1) \<Rightarrow> (Inl f, w1)
         | (Inr vs, w1) \<Rightarrow> readChunksRetrying a key n (Suc i) (acc @ vs) w1)
      else (Inr acc, w))"
  by pat_completeness auto
termination
  by (relation "measure (\<lambda>(a, key, n, i, acc, w). n - i)") auto

declare readChunksRetrying.simps [simp del]

text \<open>
  \<^verbatim>\<open>saveWithChunks(key, data, useLocal)\<close>. \<^verbatim>\<open>compressData\<close> is a parameter (it runs
  \<^verbatim>\<open>JSON.stringify\<close>, the LZMA worker and \<^verbatim>\<open>btoa\<close>); \<open>Inl\<close> is its rejection.
\<close>

definition saveWithChunks ::
  "(jsval \<Rightarrow> error + string) \<Rightarrow> int \<Rightarrow> string \<Rightarrow> jsval \<Rightarrow> bool \<Rightarrow> world
     \<Rightarrow> ((error + unit) \<times> world) option" where
  "saveWithChunks compress now key data useLocal w =
     (case compress data of
        Inl e \<Rightarrow> Some (Inl e, w)
      | Inr compressed \<Rightarrow>
          (case splitChunks chunkSize_utils compressed of
             None \<Rightarrow> None
           | Some cs \<Rightarrow> Some
               (case writeChunksRetrying (storageArea useLocal) key cs 0 w of
                  (Inl f, w1) \<Rightarrow> (Inl (StorageError f), w1)
                | (Inr u, w1) \<Rightarrow>
                    (case storage_set (storageArea useLocal) (metaKey key)
                            (Obj (empty_obj\<lparr>chunks := Some (length cs), timestamp := Some now\<rparr>))
                            w1 of
                       (Inl f, w2) \<Rightarrow> (Inl (StorageError f), w2)
                     | (Inr u2, w2) \<Rightarrow> (Inr (), w2)))))"

text \<open>
  \<^verbatim>\<open>loadFromChunks(key, useLocal)\<close>. \<open>Inr None\<close> is the \<^verbatim>\<open>null\<close> returned when there is no
  metadata entry. The loop bound \<^verbatim>\<open>meta.chunks\<close> of a value without that property is
  \<^verbatim>\<open>undefined\<close>, and \<^verbatim>\<open>i < undefined\<close> is false. \<^verbatim>\<open>decompressData\<close> is a parameter.
\<close>

definition metaChunks :: "jsval option \<Rightarrow> nat" where
  "metaChunks mv = (case mv of Some (Obj m) \<Rightarrow> (case chunks m of Some n \<Rightarrow> n | None \<Rightarrow> 0) | _ \<Rightarrow> 0)"

definition loadFromChunks ::
  "(string \<Rightarrow> error + jsval) \<Rightarrow> string \<Rightarrow> bool \<Rightarrow> world \<Rightarrow> (error + jsval option) \<times> world" where
  "loadFromChunks decompress key useLocal w =
     (case storage_get (storageArea useLocal) (metaKey key) w of
        (Inl f, w1) \<Rightarrow> (Inl (StorageError f), w1)
      | (Inr mv, w1) \<Rightarrow>
          (if \<not> truthy mv then (Inr None, w1)
           else
             (case readChunksRetrying (storageArea useLocal) key (metaChunks mv) 0 [] w1 of
                (Inl f, w2) \<Rightarrow> (Inl (StorageError f), w2)
              | (Inr vals, w2) \<Rightarrow>
                  (case decompress (joinVals vals) of
                     Inl e \<Rightarrow> (Inl e, w2)
                   | Inr v \<Rightarrow> (Inr (Some v), w2)))))"

section \<open>Retention sweep\<close>

definition maxAge :: int where
  "maxAge = 30 * 24 * 60 * 60 * 1000"

text \<open>
  \<^verbatim>\<open>value.lastAccessed && (now - value.lastAccessed > maxAge)\<close>: a missing or zero
  \<^verbatim>\<open>lastAccessed\<close> is falsy.
\<close>

definition expired :: "int \<Rightarrow> jsval \<Rightarrow> bool" where
  "expired now v =
     (case v of
        Obj m \<Rightarrow> (case lastAccessed m of Some t \<Rightarrow> t \<noteq> 0 \<and> now - t > maxAge | None \<Rightarrow> False)
      | _ \<Rightarrow> False)"

text \<open>\<^verbatim>\<open>value.isChunked && value.chunkKeys\<close>, giving the keys to spread into \<^verbatim>\<open>toRemove\<close>.\<close>

definition associatedChunks :: "jsval \<Rightarrow> string list" where
  "associatedChunks v =
     (case v of
        Obj m \<Rightarrow> (if isChunked m then (case chunkKeys m of Some ks \<Rightarrow> ks | None \<Rightarrow> []) else [])
      | _ \<Rightarrow> [])"

text \<open>\<^verbatim>\<open>storage[profileKey]?.chunkKeys?.includes(key)\<close>.\<close>

definition referencesChunk :: "(string \<times> jsval) list \<Rightarrow> string \<Rightarrow> string \<Rightarrow> bool" where
  "referencesChunk storage key profileKey =
     (case map_of storage profileKey of
        Some (Obj m) \<Rightarrow> (case chunkKeys m of Some ks \<Rightarrow> key \<in> set ks | None \<Rightarrow> False)
      | _ \<Rightarrow> False)"

text \<open>First pass: collect the profile keys (a \<^verbatim>\<open>Set\<close>) and the expired profiles with their chunks.\<close>

fun firstPass ::
  "int \<Rightarrow> (string \<times> jsval) list \<Rightarrow> string list \<times> string list \<Rightarrow> string list \<times> string list" where
  "firstPass now [] acc = acc"
| "firstPass now ((key, v) # es) (toRemove, profileKeys) =
     (if startsWith key ''profile_'' then
        firstPass now es
          (if expired now v then toRemove @ [key] @ associatedChunks v else toRemove,
           if key \<in> set profileKeys then profileKeys else profileKeys @ [key])
      else firstPass now es (toRemove, profileKeys))"

text \<open>Second pass: every \<^verbatim>\<open>chunk_\<close> key that no collected profile key lists.\<close>

fun secondPass ::
  "(string \<times> jsval) list \<Rightarrow> string list \<Rightarrow> (string \<times> jsval) list \<Rightarrow> string list \<Rightarrow> string list" where
  "secondPass storage profileKeys [] toRemove = toRemove"
| "secondPass storage profileKeys ((key, v) # es) toRemove =
     (if startsWith key CHUNK_PREFIX then
        secondPass storage profileKeys es
          (if list_ex (referencesChunk storage key) profileKeys then toRemove else toRemove @ [key])
      else secondPass storage profileKeys es toRemove)"

definition sweepList :: "int \<Rightarrow> (string \<times> jsval) list \<Rightarrow> string list" where
  "sweepList now storage =
     (case firstPass now storage ([], []) of
        (toRemove, profileKeys) \<Rightarrow> secondPass storage profileKeys storage toRemove)"

text \<open>
  \<^verbatim>\<open>cleanupStorage()\<close>: the snapshot is taken once, both passes run on it, and one
  \<^verbatim>\<open>remove\<close> call deletes the collected keys. A rejected storage call is caught and logged.
\<close>

definition cleanupStorage :: "int \<Rightarrow> world \<Rightarrow> world" where
  "cleanupStorage now w =
     (case storage_get_all Sync w of
        (Inl f, w1) \<Rightarrow> w1
      | (Inr storage, w1) \<Rightarrow>
          (let toRemove = sweepList now storage in
           if length toRemove > 0 then snd (storage_remove Sync toRemove w1) else w1))"

section \<open>Saving a profile and verifying the save\<close>

definition CHROME_SYNC_QUOTA_BYTES_PER_ITEM :: nat where
  "CHROME_SYNC_QUOTA_BYTES_PER_ITEM = 8192"

text \<open>
  \<^verbatim>\<open>storageSet(key, value, useLocal)\<close> of utils.js: compress, then either hand over to
  \<^verbatim>\<open>saveWithChunks\<close> or store the compressed string under the key itself.
\<close>

definition storageSet ::
  "(jsval \<Rightarrow> error + string) \<Rightarrow> int \<Rightarrow> string \<Rightarrow> jsval \<Rightarrow> bool \<Rightarrow> world
     \<Rightarrow> ((error + unit) \<times> world) option" where
  "storageSet compress now key v useLocal w =
     (case compress v of
        Inl e \<Rightarrow> Some (Inl e, w)
      | Inr compressed \<Rightarrow>
          (if length compressed > 8000 then saveWithChunks compress now key v useLocal w
           else Some
             (case storage_set (storageArea useLocal) key (Str compressed) w of
                (Inl f, w1) \<Rightarrow> (Inl (StorageError f), w1)
              | (Inr u, w1) \<Rightarrow> (Inr (), w1))))"

text \<open>
  \<^verbatim>\<open>storageGet(key, useLocal)\<close> of utils.js: the chunked layout first, then the entry under
  the key itself, decompressed. \<^verbatim>\<open>atob\<close> inside \<^verbatim>\<open>decompressData\<close> converts its argument to a
  string first.
\<close>

definition storageGet ::
  "(string \<Rightarrow> error + jsval) \<Rightarrow> string \<Rightarrow> bool \<Rightarrow> world \<Rightarrow> (error + jsval option) \<times> world" where
  "storageGet decompress key useLocal w =
     (case loadFromChunks decompress key useLocal w of
        (Inl e, w1) \<Rightarrow> (Inl e, w1)
      | (Inr chunked, w1) \<Rightarrow>
          (if truthy chunked then (Inr chunked, w1)
           else
             (case storage_get (storageArea useLocal) key w1 of
                (Inl f, w2) \<Rightarrow> (Inl (StorageError f), w2)
              | (Inr v, w2) \<Rightarrow>
                  (if \<not> truthy v then (Inr None, w2)
                   else
                     (case decompress (toJoinString v) of
                        Inl e \<Rightarrow> (Inl e, w2)
                      | Inr d \<Rightarrow> (Inr (Some d), w2))))))"

definition profileKeyOf :: "string \<Rightarrow> string \<Rightarrow> string" where
  "profileKeyOf profileName mainDomain = ''profile_'' @ profileName @ ''_'' @ mainDomain"

definition domainKeyOf :: "string \<Rightarrow> string" where
  "domainKeyOf mainDomain = ''domain_profiles_'' @ mainDomain"

text \<open>
  \<^verbatim>\<open>saveProfileState(profileName, domain)\<close>, the later of the two declarations in
  background.js (the one that takes effect). \<^verbatim>\<open>collectProfileData\<close> talks to the browser; its
  outcome is the parameter \<open>collected\<close>. The result is \<^verbatim>\<open>{success: true}\<close> (\<open>Inr ()\<close>) or
  \<^verbatim>\<open>{success: false, error}\<close> (\<open>Inl\<close>); the outer \<^verbatim>\<open>catch\<close> turns every exception into the
  latter. Calling \<^verbatim>\<open>.some\<close> on a stored value that is not an array is a \<^verbatim>\<open>TypeError\<close>.
\<close>

definition updateDomainProfiles ::
  "(jsval \<Rightarrow> error + string) \<Rightarrow> (string \<Rightarrow> error + jsval) \<Rightarrow> int \<Rightarrow> string \<Rightarrow> string \<Rightarrow> world
     \<Rightarrow> ((error + unit) \<times> world) option" where
  "updateDomainProfiles compress decompress now profileName mainDomain w =
     (case storageGet decompress (domainKeyOf mainDomain) False w of
        (Inl e, w1) \<Rightarrow> Some (Inl e, w1)
      | (Inr found, w1) \<Rightarrow>
          (case (if truthy found then found else Some (Arr [])) of
             Some (Arr existingProfiles) \<Rightarrow>
               (if \<not> list_ex (\<lambda>p. fst p = profileName) existingProfiles
                then storageSet compress now (domainKeyOf mainDomain)
                       (Arr (existingProfiles @ [(profileName, now)])) False w1
                else Some (Inr (), w1))
           | _ \<Rightarrow> Some (Inl TypeError, w1)))"

definition saveProfileState ::
  "(jsval \<Rightarrow> error + string) \<Rightarrow> (string \<Rightarrow> error + jsval) \<Rightarrow> int \<Rightarrow> (error + obj)
     \<Rightarrow> string \<Rightarrow> string \<Rightarrow> world \<Rightarrow> ((error + unit) \<times> world) option" where
  "saveProfileState compress decompress now collected profileName domain w =
     (if profileName = [] \<or> domain = []
      then Some (Inl (Message ''Profile name and domain are required''), w)
      else
        (case collected of
           Inl e \<Rightarrow> Some (Inl e, w)
         | Inr originalData \<Rightarrow>
             (let mainDomain = getMainDomain_background domain;
                  profileKey = profileKeyOf profileName mainDomain
              in case compress (Obj originalData) of
                   Inl e \<Rightarrow> Some (Inl e, w)
                 | Inr compressed \<Rightarrow>
                     (case (if length compressed > CHROME_SYNC_QUOTA_BYTES_PER_ITEM
                            then saveWithChunks compress now profileKey (Obj originalData) False w
                            else Some
                              (case storage_set Local profileKey (Str compressed) w of
                                 (Inl f, w1) \<Rightarrow> (Inl (StorageError f), w1)
                               | (Inr u, w1) \<Rightarrow> (Inr (), w1))) of
                        None \<Rightarrow> None
                      | Some (Inl e, w1) \<Rightarrow> Some (Inl e, w1)
                      | Some (Inr u, w1) \<Rightarrow>
                          updateDomainProfiles compress decompress now profileName mainDomain w1))))"

text \<open>
  \<^verbatim>\<open>verifySaveSuccess(profileName, domain, originalData)\<close>: read the entry under the profile key
  from the sync area and compare the cookie count and the presence of page storage. A stored
  string has neither property.
\<close>

definition savedCookies :: "jsval \<Rightarrow> cookie list" where
  "savedCookies v = (case v of Obj m \<Rightarrow> (case cookies m of Some cs \<Rightarrow> cs | None \<Rightarrow> []) | _ \<Rightarrow> [])"

definition savedHasPage :: "jsval \<Rightarrow> bool" where
  "savedHasPage v = (case v of Obj m \<Rightarrow> page m \<noteq> None | _ \<Rightarrow> False)"

definition verifySaveSuccess :: "string \<Rightarrow> string \<Rightarrow> obj \<Rightarrow> world \<Rightarrow> bool \<times> world" where
  "verifySaveSuccess profileName domain originalData w =
     (let profileKey = profileKeyOf profileName (getMainDomain_background domain)
      in case storage_get Sync profileKey w of
           (Inl f, w1) \<Rightarrow> (False, w1)
         | (Inr saved, w1) \<Rightarrow>
             (if \<not> truthy saved then (False, w1)
              else
                (case saved of
                   None \<Rightarrow> (False, w1)
                 | Some v \<Rightarrow>
                     (if length (savedCookies v) \<noteq> length (savedCookies (Obj originalData))
                      then (False, w1)
                      else if page originalData \<noteq> None \<and> \<not> savedHasPage v then (False, w1)
                      else (True, w1)))))"

section \<open>Auxiliary notions for the proofs\<close>

text \<open>The keys successfully written to an area, in the order of the writes.\<close>

definition writtenKeys :: "area \<Rightarrow> event list \<Rightarrow> string list" where
  "writtenKeys a es =
     concat (map (\<lambda>e. case e of SetOk b k \<Rightarrow> (if a = b then [k] else []) | _ \<Rightarrow> []) es)"

text \<open>A single-key storage call, whether it went through or was rejected.\<close>

definition isAttempt :: "event \<Rightarrow> bool" where
  "isAttempt e =
     (case e of SetOk _ _ \<Rightarrow> True | SetFailed _ _ _ \<Rightarrow> True
              | GetOk _ _ \<Rightarrow> True | GetFailed _ _ _ \<Rightarrow> True | _ \<Rightarrow> False)"

text \<open>The number a decimal rendering stands for.\<close>

definition digitsValue :: "string \<Rightarrow> nat" where
  "digitsValue s = foldl (\<lambda>acc c. 10 * acc + (of_char c - 48)) 0 s"

text \<open>The key a trace event reads, if it is a read of one key.\<close>

fun readKey :: "event \<Rightarrow> string option" where
  "readKey (GetOk a k) = Some k"
| "readKey (GetFailed a k f) = Some k"
| "readKey e = None"

text \<open>Every single-key read in a trace is of a key that begins with the given prefix.\<close>

definition readsUnder :: "string \<Rightarrow> event list \<Rightarrow> bool" where
  "readsUnder p es = list_all (\<lambda>e. case readKey e of None \<Rightarrow> True | Some k \<Rightarrow> startsWith k p) es"

text \<open>The sextets a byte string is cut into, and the padding its encoding ends with.\<close>

fun sextets :: "nat list \<Rightarrow> nat list" where
  "sextets (a # b # c # rest) =
     [a div 4, (a mod 4) * 16 + b div 16, (b mod 16) * 4 + c div 64, c mod 64] @ sextets rest"
| "sextets [a, b] = [a div 4, (a mod 4) * 16 + b div 16, (b mod 16) * 4]"
| "sextets [a] = [a div 4, (a mod 4) * 16]"
| "sextets [] = []"

fun padding :: "nat list \<Rightarrow> string" where
  "padding (a # b # c # rest) = padding rest"
| "padding [a, b] = ''=''"
| "padding [a] = ''==''"
| "padding [] = []"

section \<open>Example values and stores\<close>

definition emptyWorld :: world where
  "emptyWorld = \<lparr>sync_items = [], local_items = [], faults = [], events = []\<rparr>"

text \<open>
  \<^verbatim>\<open>JSON.stringify\<close> and \<^verbatim>\<open>JSON.parse\<close> on the values used in the examples: a string of
  printable ASCII characters other than the double quote and the backslash is rendered between
  double quotes with no escapes, and such a text parses back to the string. On every other
  text \<open>parseStr\<close> gives up; the examples only rely on the texts it accepts.
\<close>

definition plainChar :: "char \<Rightarrow> bool" where
  "plainChar c = (c \<noteq> CHR 0x22 \<and> c \<noteq> CHR 0x5C \<and> 32 \<le> (of_char c :: nat) \<and> (of_char c :: nat) < 127)"

fun stringifyStr :: "jsval \<Rightarrow> string" where
  "stringifyStr (Str s) = CHR 0x22 # s @ [CHR 0x22]"
| "stringifyStr v = []"

definition parseStr :: "string \<Rightarrow> jsval option" where
  "parseStr t =
     (if 2 \<le> length t \<and> hd t = CHR 0x22 \<and> last t = CHR 0x22 \<and> list_all plainChar (butlast (tl t))
      then Some (Str (butlast (tl t))) else None)"

definition exKey :: string where
  "exKey = ''profile_work_example.com''"

text \<open>Two profile values whose JSON text is 14000 characters long: two fragments each.\<close>

definition exOld :: jsval where
  "exOld = Str (replicate 13998 (CHR ''a''))"

definition exNew :: jsval where
  "exNew = Str (replicate 13998 (CHR ''b''))"

definition exMeta :: "int \<Rightarrow> jsval" where
  "exMeta t = Obj \<lparr>lastAccessed = None, timestamp = Some t, isChunked = True, chunkCount = Some 2,
     chunkKeys = Some [''chunk_profile_work_example.com_0'', ''chunk_profile_work_example.com_1''],
     chunks = None, cookies = None, page = None\<rparr>"

text \<open>The store after \<open>exOld\<close> was saved and committed under \<open>exKey\<close> at time 1000.\<close>

definition committedItems :: "(string \<times> jsval) list" where
  "committedItems =
     [(''chunk_profile_work_example.com_0'', Str (CHR 0x22 # replicate 6999 (CHR ''a''))),
      (''chunk_profile_work_example.com_1'', Str (replicate 6999 (CHR ''a'') @ [CHR 0x22])),
      (''profile_work_example.com'', exMeta 1000)]"

text \<open>The store after a save of \<open>exNew\<close> under \<open>exKey\<close> was cut off after its first fragment.\<close>

definition interruptedItems :: "(string \<times> jsval) list" where
  "interruptedItems =
     [(''chunk_profile_work_example.com_0'', Str (CHR 0x22 # replicate 6999 (CHR ''b''))),
      (''chunk_profile_work_example.com_1'', Str (replicate 6999 (CHR ''a'') @ [CHR 0x22])),
      (''profile_work_example.com'', exMeta 1000)]"

text \<open>The store after \<open>exNew\<close> was saved and committed over \<open>exOld\<close> at time 2000.\<close>

definition overwrittenItems :: "(string \<times> jsval) list" where
  "overwrittenItems =
     [(''chunk_profile_work_example.com_0'', Str (CHR 0x22 # replicate 6999 (CHR ''b''))),
      (''chunk_profile_work_example.com_1'', Str (replicate 6999 (CHR ''b'') @ [CHR 0x22])),
      (''profile_work_example.com'', exMeta 2000)]"



text \<open>The same gap in the layout of utils.js: three fragments announced, the middle one missing.\<close>

definition gapUtilsWorld :: world where
  "gapUtilsWorld = \<lparr>sync_items =
       [(''profile_work_example.com_chunk_0'', Str ''XQAAgAD//////////wA''),
        (''profile_work_example.com_chunk_2'', Str ''v7//7AAA=''),
        (''profile_work_example.com_meta'',
           Obj \<lparr>lastAccessed = None, timestamp = Some 1000, isChunked = False, chunkCount = None,
                chunkKeys = None, chunks = Some 3, cookies = None, page = None\<rparr>)],
     local_items = [], faults = [], events = []\<rparr>"

text \<open>
  A sync store at time 1700000000000 holding: a profile last used in 2020, chunked, with its
  fragment; a profile used a second ago, chunked, with its two fragments; a fragment nothing
  refers to; a chunked record under a key that does not begin with \<^verbatim>\<open>profile_\<close>, with its
  fragment; and another such record, last used in 2020, with its fragment.
\<close>

definition sweepNow :: int where
  "sweepNow = 1700000000000"

definition metaOf :: "int option \<Rightarrow> string list \<Rightarrow> jsval" where
  "metaOf la ks = Obj \<lparr>lastAccessed = la, timestamp = Some 1600000000000, isChunked = True,
     chunkCount = Some (length ks), chunkKeys = Some ks, chunks = None, cookies = None,
     page = None\<rparr>"

definition sweepWorld :: world where
  "sweepWorld = \<lparr>sync_items =
      [(''profile_old_example.com'', metaOf (Some 1600000000000) [''chunk_profile_old_example.com_0'']),
       (''chunk_profile_old_example.com_0'', Str ''o0''),
       (''profile_work_example.com'',
          metaOf (Some 1699999999000)
            [''chunk_profile_work_example.com_0'', ''chunk_profile_work_example.com_1'']),
       (''chunk_profile_work_example.com_0'', Str ''w0''),
       (''chunk_profile_work_example.com_1'', Str ''w1''),
       (''chunk_profile_gone_example.com_0'', Str ''g0''),
       (''backup_work'', metaOf None [''chunk_backup_work_0'']),
       (''chunk_backup_work_0'', Str ''b0''),
       (''archive_2020'', metaOf (Some 1600000000000) [''chunk_archive_2020_0'']),
       (''chunk_archive_2020_0'', Str ''a0'')],
     local_items = [], faults = [], events = []\<rparr>"

text \<open>A collected profile with two cookies and page storage, and a compressor for the example.\<close>

definition exProfile :: obj where
  "exProfile = \<lparr>lastAccessed = Some 1700000000000, timestamp = Some 1700000000000,
     isChunked = False, chunkCount = None, chunkKeys = None, chunks = None,
     cookies = Some [(''session_id'', ''s3cr3t''), (''auth_token'', ''t0k3n'')],
     page = Some \<lparr>localStorage = [(''auth'', ''1'')], sessionStorage = []\<rparr>\<rparr>"

fun exCompress :: "jsval \<Rightarrow> error + string" where
  "exCompress (Obj m) = Inr ''XQAAgAD//////////wA9iImGVFs=''"
| "exCompress (Arr xs) = Inr ''XQAAgAD//////////wAtgJhGv/xA''"
| "exCompress (Str s) = Inr ''XQAAgAD//////////wARCIJk''"

text \<open>
  The values handed to \<^verbatim>\<open>compressData\<close> in the examples: \<^verbatim>\<open>undefined\<close>, \<^verbatim>\<open>null\<close>,
  \<^verbatim>\<open>NaN\<close>, the booleans, and strings of code units below 256.
\<close>

datatype jsdata = JUndefined | JNull | JNaN | JBool bool | JStr string

text \<open>
  \<^verbatim>\<open>JSON.stringify\<close> on these values. Its result for \<^verbatim>\<open>undefined\<close> is \<^verbatim>\<open>undefined\<close>, here
  \<open>None\<close>; \<^verbatim>\<open>NaN\<close> is rendered as \<^verbatim>\<open>null\<close>. In a string the double quote, the backslash
  and the code units below 32 are escaped, the others stand for themselves.
\<close>

definition hexDigit :: "nat \<Rightarrow> char" where
  "hexDigit n = ''0123456789abcdef'' ! n"

definition quoteChar :: "char \<Rightarrow> string" where
  "quoteChar c =
     (if c = CHR 0x22 then [CHR 0x5C, CHR 0x22]
      else if c = CHR 0x5C then [CHR 0x5C, CHR 0x5C]
      else if c = CHR 0x08 then [CHR 0x5C, CHR ''b'']
      else if c = CHR 0x09 then [CHR 0x5C, CHR ''t'']
      else if c = CHR 0x0A then [CHR 0x5C, CHR ''n'']
      else if c = CHR 0x0C then [CHR 0x5C, CHR ''f'']
      else if c = CHR 0x0D then [CHR 0x5C, CHR ''r'']
      else if (of_char c :: nat) < 32 then
        [CHR 0x5C, CHR ''u'', CHR ''0'', CHR ''0'',
         hexDigit ((of_char c :: nat) div 16), hexDigit ((of_char c :: nat) mod 16)]
      else [c])"

fun jsonStringify :: "jsdata \<Rightarrow> string option" where
  "jsonStringify JUndefined = None"
| "jsonStringify JNull = Some ''null''"
| "jsonStringify JNaN = Some ''null''"
| "jsonStringify (JBool b) = Some (if b then ''true'' else ''false'')"
| "jsonStringify (JStr s) = Some (CHR 0x22 # concat (map quoteChar s) @ [CHR 0x22])"

text \<open>
  \<^verbatim>\<open>new TextEncoder().encode(jsonString)\<close>: the UTF-8 bytes of the text, one byte for a code
  unit below 128 and two for the others. The argument \<^verbatim>\<open>undefined\<close> takes the parameter's
  default, the empty string, and gives no bytes.
\<close>

definition utf8 :: "char \<Rightarrow> int list" where
  "utf8 c =
     (let u = (of_char c :: nat) in
      if u < 128 then [int u] else [int (192 + u div 64), int (128 + u mod 64)])"

definition textEncode :: "string option \<Rightarrow> int list" where
  "textEncode t = (case t of None \<Rightarrow> [] | Some s \<Rightarrow> concat (map utf8 s))"

definition jsonSerialize :: "jsdata \<Rightarrow> int list" where
  "jsonSerialize d = textEncode (jsonStringify d)"

text \<open>
  \<^verbatim>\<open>JSON.parse\<close> on the texts that \<open>jsonStringify\<close> gives for \<^verbatim>\<open>null\<close>, the booleans and
  the strings that need no escape, and on the empty text, which is not a JSON text:
  \<^verbatim>\<open>JSON.parse('')\<close> throws a \<^verbatim>\<open>SyntaxError\<close>, here \<open>None\<close>. On every other text \<open>jsonParse\<close>
  gives up with \<open>None\<close> as well; the examples only rely on the texts named here.
\<close>

definition jsonParse :: "string \<Rightarrow> jsdata option" where
  "jsonParse t =
     (if t = ''null'' then Some JNull
      else if t = ''true'' then Some (JBool True)
      else if t = ''false'' then Some (JBool False)
      else if 2 \<le> length t \<and> hd t = CHR 0x22 \<and> last t = CHR 0x22
              \<and> list_all plainChar (butlast (tl t))
      then Some (JStr (butlast (tl t)))
      else None)"

text \<open>
  \<^verbatim>\<open>new TextDecoder().decode(result)\<close> followed by \<^verbatim>\<open>JSON.parse\<close>: bytes below 128 decode to
  the characters they number, and no bytes decode to the empty text. An array with any other
  number in it is left to one side (\<open>None\<close>).
\<close>

definition jsonDeserialize :: "int list \<Rightarrow> jsdata option" where
  "jsonDeserialize bs =
     (if list_all (\<lambda>x. 0 \<le> x \<and> x < 128) bs then jsonParse (map (\<lambda>x. char_of (nat x)) bs)
      else None)"

section \<open>Properties of the chunk codec\<close>

lemma slice_take_drop:
  "i < length b \<Longrightarrow> slice b i (i + s) = take s (drop i b)"
  by (auto simp: slice_def min_def)

lemma split_loop_total:
  "0 < s \<Longrightarrow> \<exists>cs. split_loop s b i acc = Some (acc @ cs)
     \<and> concat cs = drop i b
     \<and> (\<forall>j. Suc j < length cs \<longrightarrow> length (cs ! j) = s)
     \<and> (\<forall>c \<in> set cs. c \<noteq> [] \<and> length c \<le> s)"
proof (induction "length b - i" arbitrary: i acc rule: less_induct)
  case less
  show ?case
  proof (cases "i < length b")
    case False
    then show ?thesis by (subst split_loop.simps) simp
  next
    case True
    have m: "length b - (i + s) < length b - i" using True less.prems by arith
    from less.hyps[OF m less.prems, of "acc @ [slice b i (i + s)]"]
    obtain cs where cs:
      "split_loop s b (i + s) (acc @ [slice b i (i + s)]) = Some ((acc @ [slice b i (i + s)]) @ cs)"
      "concat cs = drop (i + s) b"
      "\<forall>j. Suc j < length cs \<longrightarrow> length (cs ! j) = s"
      "\<forall>c \<in> set cs. c \<noteq> [] \<and> length c \<le> s" by blast
    have sl: "slice b i (i + s) = take s (drop i b)"
      using True by (rule slice_take_drop)
    have cs_ne: "cs \<noteq> [] \<Longrightarrow> i + s < length b"
      using cs(2) cs(4) by (cases "i + s < length b") auto
    let ?cs = "slice b i (i + s) # cs"
    have 1: "split_loop s b i acc = Some (acc @ ?cs)"
      using True cs(1) by (subst split_loop.simps) simp
    have dd: "drop (i + s) b = drop s (drop i b)" by (simp add: add.commute)
    have 2: "concat ?cs = drop i b"
      unfolding concat.simps cs(2) sl dd by (rule append_take_drop_id)
    have 3: "\<forall>j. Suc j < length ?cs \<longrightarrow> length (?cs ! j) = s"
    proof (intro allI impI)
      fix j assume j: "Suc j < length ?cs"
      show "length (?cs ! j) = s"
      proof (cases j)
        case 0
        with j have "cs \<noteq> []" by auto
        from cs_ne[OF this] show ?thesis using 0 sl by simp
      next
        case (Suc k)
        then show ?thesis using j cs(3) by simp
      qed
    qed
    have 4: "\<forall>c \<in> set ?cs. c \<noteq> [] \<and> length c \<le> s"
      using cs(4) sl True less.prems by auto
    from 1 2 3 4 show ?thesis by blast
  qed
qed

lemma splitChunks_empty: "splitChunks s [] = Some []"
  unfolding splitChunks_def by (subst split_loop.simps) simp

text \<open>
  Claim C3. For every string \<open>b\<close> and every fragment size \<open>s > 0\<close> the splitting loop
  returns; every fragment but possibly the last has length exactly \<open>s\<close>; no fragment is empty
  or longer than \<open>s\<close>; concatenating the fragments in order gives \<open>b\<close> back; and the empty
  input gives the empty list of fragments.
\<close>

theorem split_join_roundtrip:
  "0 < s \<Longrightarrow>
   \<exists>cs. splitChunks s b = Some cs
      \<and> concat cs = b
      \<and> (\<forall>j. Suc j < length cs \<longrightarrow> length (cs ! j) = s)
      \<and> (\<forall>c \<in> set cs. c \<noteq> [] \<and> length c \<le> s)
      \<and> splitChunks s [] = Some []"
  using split_loop_total[of s b 0 "[]"] splitChunks_empty[of s]
  unfolding splitChunks_def by simp

theorem split_join_roundtrip_witness:
  "(0::nat) < 3 \<and>
   (\<exists>cs. splitChunks 3 ''abcdefgh'' = Some cs
      \<and> concat cs = ''abcdefgh''
      \<and> (\<forall>j. Suc j < length cs \<longrightarrow> length (cs ! j) = 3)
      \<and> (\<forall>c \<in> set cs. c \<noteq> [] \<and> length c \<le> 3)
      \<and> splitChunks 3 [] = Some [])"
  using split_join_roundtrip[of 3 "''abcdefgh''"] by simp

section \<open>Properties of the domain utilities\<close>

lemma getMainDomain_agree:
  "joinWith ''.'' (sliceLast 2 (splitOn (CHR ''.'') d)) \<noteq> ''co.in''
   \<Longrightarrow> getMainDomain_utils d = getMainDomain_background d"
  by (simp add: getMainDomain_utils_def getMainDomain_background_def
      specialTlds_utils_def specialTlds_background_def Let_def)

text \<open>
  Claim C10. The two copies of \<^verbatim>\<open>getMainDomain\<close> are not extensionally equal: the copy in
  utils.js lists \<^verbatim>\<open>co.in\<close> among the two-label public suffixes and the copy in background.js
  does not, so on \<^verbatim>\<open>shop.example.co.in\<close> the first keeps three labels and the second two.
\<close>

theorem getMainDomain_diverge:
  "getMainDomain_utils ''shop.example.co.in'' = ''example.co.in''
   \<and> getMainDomain_background ''shop.example.co.in'' = ''co.in''"
  by (simp add: getMainDomain_utils_def getMainDomain_background_def
      specialTlds_utils_def specialTlds_background_def sliceLast_def)

section \<open>Fragment keys\<close>

lemma digitsValue_snoc: "digitsValue (s @ [c]) = 10 * digitsValue s + (of_char c - 48)"
  by (simp add: digitsValue_def)

lemma of_char_digit: "d < 10 \<Longrightarrow> of_char (digit d) = 48 + d"
  by (simp add: digit_def)

lemma digitsValue_string_of_nat: "digitsValue (string_of_nat n) = n"
proof (induction n rule: string_of_nat.induct)
  case (1 n)
  show ?case
  proof (cases "n < 10")
    case True
    then show ?thesis
      by (subst string_of_nat.simps) (simp add: digitsValue_def of_char_digit)
  next
    case False
    have "digitsValue (string_of_nat n) = 10 * digitsValue (string_of_nat (n div 10)) + (of_char (digit (n mod 10)) - 48)"
      using False by (subst string_of_nat.simps) (simp add: digitsValue_snoc)
    also have "\<dots> = 10 * (n div 10) + n mod 10"
      using "1.IH"[OF False] by (simp add: of_char_digit)
    finally show ?thesis by simp
  qed
qed

lemma string_of_nat_inj: "string_of_nat i = string_of_nat j \<Longrightarrow> i = j"
  by (metis digitsValue_string_of_nat)

lemma chunkKey_inj: "chunkKey key i = chunkKey key j \<Longrightarrow> i = j"
  by (simp add: chunkKey_def string_of_nat_inj)

lemma chunkKey_neq_key: "chunkKey key i \<noteq> key"
proof
  assume "chunkKey key i = key"
  then have "length (chunkKey key i) = length key" by simp
  then show False by (simp add: chunkKey_def CHUNK_PREFIX_def)
qed

lemma utilsChunkKey_inj: "utilsChunkKey key i = utilsChunkKey key j \<Longrightarrow> i = j"
  by (simp add: utilsChunkKey_def string_of_nat_inj)

lemma utilsChunkKey_neq_meta: "utilsChunkKey key i \<noteq> metaKey key"
proof
  assume "utilsChunkKey key i = metaKey key"
  then have e: "''_chunk_'' @ string_of_nat i = ''_meta''" by (simp add: utilsChunkKey_def metaKey_def)
  then show False by simp
qed

section \<open>The store under one call\<close>

lemma items_put_items [simp]:
  "items a (put_items a g w) = g (items a w)"
  "a \<noteq> b \<Longrightarrow> items b (put_items a g w) = items b w"
  "events (put_items a g w) = events w"
  "faults (put_items a g w) = faults w"
  by (cases a; cases b; simp add: items_def put_items_def)+

lemma items_updates [simp]:
  "items a (w\<lparr>faults := fs\<rparr>) = items a w"
  "items a (w\<lparr>events := es\<rparr>) = items a w"
  by (cases a; simp add: items_def)+

lemma record_event_simps [simp]:
  "items a (record_event e w) = items a w"
  "events (record_event e w) = events w @ [e]"
  "faults (record_event e w) = faults w"
  by (simp_all add: record_event_def)

lemma next_fault_items [simp]: "items a (snd (next_fault w)) = items a w"
  "events (snd (next_fault w)) = events w"
  by (simp_all add: next_fault_def split: list.splits)

text \<open>What one write does, by its outcome.\<close>

lemma storage_set_Inr:
  assumes "storage_set a k v w = (Inr u, w1)"
  shows "events w1 = events w @ [SetOk a k]"
    and "items a w1 = AList.update k v (items a w)"
    and "b \<noteq> a \<Longrightarrow> items b w1 = items b w"
  using assms by (auto simp: storage_set_def case_prod_beta split: option.splits)

lemma storage_set_Inl:
  assumes "storage_set a k v w = (Inl f, w1)"
  shows "events w1 = events w @ [SetFailed a k f]"
    and "items b w1 = items b w"
  using assms by (auto simp: storage_set_def case_prod_beta split: option.splits)

lemma writtenKeys_append [simp]: "writtenKeys a (xs @ ys) = writtenKeys a xs @ writtenKeys a ys"
  by (simp add: writtenKeys_def)

lemma writtenKeys_simps [simp]:
  "writtenKeys a [] = []"
  "writtenKeys a (SetOk a k # es) = k # writtenKeys a es"
  "writtenKeys a (SetFailed b k f # es) = writtenKeys a es"
  "writtenKeys a (Sleep n # es) = writtenKeys a es"
  by (simp_all add: writtenKeys_def)

section \<open>The fragment loop of saveWithChunking\<close>

lemma writeChunks_spec:
  assumes "writeChunks key cs i cks w = (r, w1)" and "i \<le> length cs"
  shows "\<exists>j es. i \<le> j \<and> j \<le> length cs
      \<and> events w1 = events w @ es
      \<and> writtenKeys Sync es = map (chunkKey key) [i..<j]
      \<and> (case r of Inl f \<Rightarrow> j < length cs \<and> es = map (\<lambda>n. SetOk Sync (chunkKey key n)) [i..<j] @ [SetFailed Sync (chunkKey key j) f]
                  | Inr ks \<Rightarrow> j = length cs \<and> es = map (\<lambda>n. SetOk Sync (chunkKey key n)) [i..<j] \<and> ks = cks @ map (chunkKey key) [i..<length cs])
      \<and> items Local w1 = items Local w
      \<and> (\<forall>n. i \<le> n \<and> n < j \<longrightarrow> map_of (items Sync w1) (chunkKey key n) = Some (Str (cs ! n)))
      \<and> (\<forall>k'. k' \<notin> chunkKey key ` {i..<j} \<longrightarrow> map_of (items Sync w1) k' = map_of (items Sync w) k')"
  using assms
proof (induction key cs i cks w rule: writeChunks.induct)
  case (1 key cs i cks w)
  show ?case
  proof (cases "i < length cs")
    case False
    with "1.prems" have "r = Inr cks" "w1 = w" "i = length cs"
      by (simp_all add: writeChunks.simps[of key cs i])
    then show ?thesis by (intro exI[of _ i] exI[of _ "[]"]) auto
  next
    case True
    obtain r0 w0 where s: "storage_set Sync (chunkKey key i) (Str (cs ! i)) w = (r0, w0)"
      by (cases "storage_set Sync (chunkKey key i) (Str (cs ! i)) w")
    show ?thesis
    proof (cases r0)
      case (Inl f)
      with "1.prems" True s have rw: "r = Inl f" "w1 = w0"
        by (simp_all add: writeChunks.simps[of key cs i])
      from storage_set_Inl[OF s[unfolded Inl]] rw True
      show ?thesis by (intro exI[of _ i] exI[of _ "[SetFailed Sync (chunkKey key i) f]"]) auto
    next
      case (Inr u)
      with "1.prems" True s have rec: "writeChunks key cs (Suc i) (cks @ [chunkKey key i]) w0 = (r, w1)"
        by (simp add: writeChunks.simps[of key cs i])
      from "1.IH"[OF True s[symmetric] _ rec] Inr True
      obtain j es where j: "Suc i \<le> j" "j \<le> length cs" "events w1 = events w0 @ es"
        "writtenKeys Sync es = map (chunkKey key) [Suc i..<j]"
        "(case r of Inl f \<Rightarrow> j < length cs \<and> es = map (\<lambda>n. SetOk Sync (chunkKey key n)) [Suc i..<j] @ [SetFailed Sync (chunkKey key j) f]
                  | Inr ks \<Rightarrow> j = length cs \<and> es = map (\<lambda>n. SetOk Sync (chunkKey key n)) [Suc i..<j] \<and> ks = (cks @ [chunkKey key i]) @ map (chunkKey key) [Suc i..<length cs])"
        "items Local w1 = items Local w0"
        "\<forall>n. Suc i \<le> n \<and> n < j \<longrightarrow> map_of (items Sync w1) (chunkKey key n) = Some (Str (cs ! n))"
        "\<forall>k'. k' \<notin> chunkKey key ` {Suc i..<j} \<longrightarrow> map_of (items Sync w1) k' = map_of (items Sync w0) k'"
        by auto
      note st = storage_set_Inr[OF s[unfolded Inr]]
      have up: "[i..<j] = i # [Suc i..<j]" using j(1) by (simp add: upt_conv_Cons)
      have upl: "[i..<length cs] = i # [Suc i..<length cs]" using True by (simp add: upt_conv_Cons)
      have w0: "map_of (items Sync w0) = (map_of (items Sync w))(chunkKey key i \<mapsto> Str (cs ! i))"
        using st(2) by (simp add: update_conv')
      have A: "events w1 = events w @ (SetOk Sync (chunkKey key i) # es)" using j(3) st(1) by simp
      have B: "writtenKeys Sync (SetOk Sync (chunkKey key i) # es) = map (chunkKey key) [i..<j]"
        using j(4) up by simp
      have C: "(case r of Inl f \<Rightarrow> j < length cs \<and> SetOk Sync (chunkKey key i) # es = map (\<lambda>n. SetOk Sync (chunkKey key n)) [i..<j] @ [SetFailed Sync (chunkKey key j) f]
                  | Inr ks \<Rightarrow> j = length cs \<and> SetOk Sync (chunkKey key i) # es = map (\<lambda>n. SetOk Sync (chunkKey key n)) [i..<j] \<and> ks = cks @ map (chunkKey key) [i..<length cs])"
        using j(5) up upl by (cases r) simp_all
      have D: "items Local w1 = items Local w" using j(6) st(3)[of Local] by simp
      have E: "\<forall>n. i \<le> n \<and> n < j \<longrightarrow> map_of (items Sync w1) (chunkKey key n) = Some (Str (cs ! n))"
      proof (intro allI impI)
        fix n assume n: "i \<le> n \<and> n < j"
        show "map_of (items Sync w1) (chunkKey key n) = Some (Str (cs ! n))"
        proof (cases "n = i")
          case False
          with n show ?thesis using j(7) by simp
        next
          case True
          have "chunkKey key i \<notin> chunkKey key ` {Suc i..<j}" by (auto dest: chunkKey_inj)
          then show ?thesis using j(8) w0 True by simp
        qed
      qed
      have F: "\<forall>k'. k' \<notin> chunkKey key ` {i..<j} \<longrightarrow> map_of (items Sync w1) k' = map_of (items Sync w) k'"
      proof (intro allI impI)
        fix k' assume k: "k' \<notin> chunkKey key ` {i..<j}"
        have split: "{i..<j} = insert i {Suc i..<j}" using j(1) by auto
        from k split have "k' \<noteq> chunkKey key i" "k' \<notin> chunkKey key ` {Suc i..<j}" by auto
        then show "map_of (items Sync w1) k' = map_of (items Sync w) k'" using j(8) w0 by simp
      qed
      from \<open>Suc i \<le> j\<close> j(2) A B C D E F show ?thesis
        by (intro exI[of _ j] exI[of _ "SetOk Sync (chunkKey key i) # es"]) simp
    qed
  qed
qed

section \<open>The retry loops of utils.js\<close>

lemma storage_get_events:
  "\<exists>e. isAttempt e \<and> events (snd (storage_get a k w)) = events w @ [e]"
  by (auto simp: storage_get_def isAttempt_def case_prod_beta split: option.splits)

lemma storage_set_events:
  "\<exists>e. isAttempt e \<and> events (snd (storage_set a k v w)) = events w @ [e]"
  by (auto simp: storage_set_def isAttempt_def case_prod_beta split: option.splits)

lemma sleep_attempts [simp]: "filter isAttempt (events (sleep n w)) = filter isAttempt (events w)"
  by (simp add: sleep_def isAttempt_def)

lemma setWithRetries_attempts:
  "length (filter isAttempt (events (snd (setWithRetries a k v r w))))
     \<le> length (filter isAttempt (events w)) + (maxRetries - r)"
proof (induction a k v r w rule: setWithRetries.induct)
  case (1 a k v retries w)
  show ?case
  proof (cases "retries < maxRetries")
    case False
    then show ?thesis by (subst setWithRetries.simps) simp
  next
    case True
    obtain r w1 where s: "storage_set a k v w = (r, w1)" by (cases "storage_set a k v w")
    from storage_set_events[of a k v w] s
    have ev: "length (filter isAttempt (events w1)) = length (filter isAttempt (events w)) + 1"
      by auto
    show ?thesis
    proof (cases r)
      case (Inr u)
      then show ?thesis using True s ev by (subst setWithRetries.simps) simp
    next
      case (Inl f)
      show ?thesis
      proof (cases "Suc retries = maxRetries")
        case True
        then show ?thesis using \<open>retries < maxRetries\<close> s ev Inl
          by (subst setWithRetries.simps) simp
      next
        case False
        from "1.IH"[OF True s[symmetric] _ False, of f] Inl
        have "length (filter isAttempt (events (snd (setWithRetries a k v (Suc retries)
                 (sleep (100 * Suc retries) w1)))))
              \<le> length (filter isAttempt (events w1)) + (maxRetries - Suc retries)"
          by simp
        then show ?thesis using True False s ev Inl
          by (subst setWithRetries.simps) simp
      qed
    qed
  qed
qed

lemma getWithRetries_attempts:
  "length (filter isAttempt (events (snd (getWithRetries a k r w))))
     \<le> length (filter isAttempt (events w)) + (maxRetries - r)"
proof (induction a k r w rule: getWithRetries.induct)
  case (1 a k retries w)
  show ?case
  proof (cases "retries < maxRetries")
    case False
    then show ?thesis by (subst getWithRetries.simps) simp
  next
    case True
    obtain r w1 where s: "storage_get a k w = (r, w1)" by (cases "storage_get a k w")
    from storage_get_events[of a k w] s
    have ev: "length (filter isAttempt (events w1)) = length (filter isAttempt (events w)) + 1"
      by auto
    show ?thesis
    proof (cases r)
      case (Inr u)
      then show ?thesis using True s ev by (subst getWithRetries.simps) simp
    next
      case (Inl f)
      show ?thesis
      proof (cases "Suc retries = maxRetries")
        case True
        then show ?thesis using \<open>retries < maxRetries\<close> s ev Inl
          by (subst getWithRetries.simps) simp
      next
        case False
        from "1.IH"[OF True s[symmetric] _ False, of f] Inl
        have "length (filter isAttempt (events (snd (getWithRetries a k (Suc retries)
                 (sleep (100 * Suc retries) w1)))))
              \<le> length (filter isAttempt (events w1)) + (maxRetries - Suc retries)"
          by simp
        then show ?thesis using True False s ev Inl
          by (subst getWithRetries.simps) simp
      qed
    qed
  qed
qed

lemma retry_cases:
  "setWithRetries a k v 0 (w\<lparr>faults := None # fs\<rparr>) = storage_set a k v (w\<lparr>faults := None # fs\<rparr>)"
  "setWithRetries a k v 0 (w\<lparr>faults := Some f1 # None # fs\<rparr>) =
     storage_set a k v (w\<lparr>faults := None # fs, events := events w @ [SetFailed a k f1, Sleep 100]\<rparr>)"
  "setWithRetries a k v 0 (w\<lparr>faults := Some f1 # Some f2 # None # fs\<rparr>) =
     storage_set a k v (w\<lparr>faults := None # fs,
        events := events w @ [SetFailed a k f1, Sleep 100, SetFailed a k f2, Sleep 200]\<rparr>)"
  "setWithRetries a k v 0 (w\<lparr>faults := Some f1 # Some f2 # Some f3 # fs\<rparr>) =
     (Inl f3, w\<lparr>faults := fs, events := events w @
        [SetFailed a k f1, Sleep 100, SetFailed a k f2, Sleep 200, SetFailed a k f3]\<rparr>)"
  "getWithRetries a k 0 (w\<lparr>faults := None # fs\<rparr>) =
     apfst (map_sum id (\<lambda>x. [x])) (storage_get a k (w\<lparr>faults := None # fs\<rparr>))"
  "getWithRetries a k 0 (w\<lparr>faults := Some f1 # None # fs\<rparr>) =
     apfst (map_sum id (\<lambda>x. [x]))
       (storage_get a k (w\<lparr>faults := None # fs, events := events w @ [GetFailed a k f1, Sleep 100]\<rparr>))"
  "getWithRetries a k 0 (w\<lparr>faults := Some f1 # Some f2 # None # fs\<rparr>) =
     apfst (map_sum id (\<lambda>x. [x]))
       (storage_get a k (w\<lparr>faults := None # fs,
          events := events w @ [GetFailed a k f1, Sleep 100, GetFailed a k f2, Sleep 200]\<rparr>))"
  "getWithRetries a k 0 (w\<lparr>faults := Some f1 # Some f2 # Some f3 # fs\<rparr>) =
     (Inl f3, w\<lparr>faults := fs, events := events w @
        [GetFailed a k f1, Sleep 100, GetFailed a k f2, Sleep 200, GetFailed a k f3]\<rparr>)"
  by (simp_all add: setWithRetries.simps getWithRetries.simps maxRetries_def storage_set_def
      storage_get_def next_fault_def record_event_def sleep_def)

text \<open>
  Claim C7, as the code has it. A fragment write or read of utils.js that is rejected is
  issued again as it was, after a pause of 100 ms times the number of rejections so far,
  whatever the class of the rejection; the third rejection is rethrown. No run of either loop
  makes more than three attempts.
\<close>

theorem retries_on_any_failure:
  "setWithRetries a k v 0 (w\<lparr>faults := None # fs\<rparr>) = storage_set a k v (w\<lparr>faults := None # fs\<rparr>)
 \<and> setWithRetries a k v 0 (w\<lparr>faults := Some f1 # None # fs\<rparr>) =
     storage_set a k v (w\<lparr>faults := None # fs, events := events w @ [SetFailed a k f1, Sleep 100]\<rparr>)
 \<and> setWithRetries a k v 0 (w\<lparr>faults := Some f1 # Some f2 # None # fs\<rparr>) =
     storage_set a k v (w\<lparr>faults := None # fs,
        events := events w @ [SetFailed a k f1, Sleep 100, SetFailed a k f2, Sleep 200]\<rparr>)
 \<and> setWithRetries a k v 0 (w\<lparr>faults := Some f1 # Some f2 # Some f3 # fs\<rparr>) =
     (Inl f3, w\<lparr>faults := fs, events := events w @
        [SetFailed a k f1, Sleep 100, SetFailed a k f2, Sleep 200, SetFailed a k f3]\<rparr>)
 \<and> getWithRetries a k 0 (w\<lparr>faults := None # fs\<rparr>) =
     apfst (map_sum id (\<lambda>x. [x])) (storage_get a k (w\<lparr>faults := None # fs\<rparr>))
 \<and> getWithRetries a k 0 (w\<lparr>faults := Some f1 # None # fs\<rparr>) =
     apfst (map_sum id (\<lambda>x. [x]))
       (storage_get a k (w\<lparr>faults := None # fs, events := events w @ [GetFailed a k f1, Sleep 100]\<rparr>))
 \<and> getWithRetries a k 0 (w\<lparr>faults := Some f1 # Some f2 # None # fs\<rparr>) =
     apfst (map_sum id (\<lambda>x. [x]))
       (storage_get a k (w\<lparr>faults := None # fs,
          events := events w @ [GetFailed a k f1, Sleep 100, GetFailed a k f2, Sleep 200]\<rparr>))
 \<and> getWithRetries a k 0 (w\<lparr>faults := Some f1 # Some f2 # Some f3 # fs\<rparr>) =
     (Inl f3, w\<lparr>faults := fs, events := events w @
        [GetFailed a k f1, Sleep 100, GetFailed a k f2, Sleep 200, GetFailed a k f3]\<rparr>)
 \<and> length (filter isAttempt (events (snd (setWithRetries a k v 0 w0))))
     \<le> length (filter isAttempt (events w0)) + 3
 \<and> length (filter isAttempt (events (snd (getWithRetries a k 0 w0))))
     \<le> length (filter isAttempt (events w0)) + 3"
  using retry_cases setWithRetries_attempts[of a k v 0 w0]
    getWithRetries_attempts[of a k 0 w0]
  by (simp add: maxRetries_def)

text \<open>
  Claim C7, refuted as stated: a fragment write rejected with \<open>QuotaExceeded\<close> is retried
  as it is after 100 ms, and here the retry goes through.
\<close>

theorem quota_failure_retried:
  "setWithRetries Sync ''profile_work_example.com_chunk_0'' (Str ''XQAAgAD'') 0
     (emptyWorld\<lparr>faults := [Some QuotaExceeded]\<rparr>) =
   (Inr (), \<lparr>sync_items = [(''profile_work_example.com_chunk_0'', Str ''XQAAgAD'')],
      local_items = [], faults = [],
      events = [SetFailed Sync ''profile_work_example.com_chunk_0'' QuotaExceeded, Sleep 100,
                SetOk Sync ''profile_work_example.com_chunk_0'']\<rparr>)"
  by (simp add: emptyWorld_def setWithRetries.simps maxRetries_def storage_set_def
      next_fault_def record_event_def sleep_def put_items_def)

section \<open>saveWithChunking as a whole\<close>

lemma splitChunks_total: "0 < s \<Longrightarrow> \<exists>cs. splitChunks s b = Some cs"
  using split_loop_total[of s b 0 "[]"] unfolding splitChunks_def by auto

lemma CHUNK_SIZE_pos: "0 < CHUNK_SIZE" by (simp add: CHUNK_SIZE_def)

lemma sync_items_items: "sync_items w = items Sync w" by (simp add: items_def)

lemma saveWithChunking_spec:
  assumes sp: "splitChunks CHUNK_SIZE (stringify d) = Some cs"
  shows "\<exists>r w1 j. saveWithChunking stringify now key d w = Some (r, w1) \<and> j \<le> length cs \<and>
     (case r of
        Inr ok \<Rightarrow> ok \<and> j = length cs
          \<and> events w1 = events w @ map (\<lambda>n. SetOk Sync (chunkKey key n)) [0..<length cs] @ [SetOk Sync key]
          \<and> map_of (items Sync w1) key = Some (Obj (empty_obj\<lparr>isChunked := True,
                 chunkCount := Some (length cs), chunkKeys := Some (map (chunkKey key) [0..<length cs]),
                 timestamp := Some now\<rparr>))
      | Inl e \<Rightarrow> (\<exists>f k. e = StorageError f \<and> k = (if j < length cs then chunkKey key j else key)
          \<and> events w1 = events w @ map (\<lambda>n. SetOk Sync (chunkKey key n)) [0..<j] @ [SetFailed Sync k f])
          \<and> map_of (items Sync w1) key = map_of (items Sync w) key)
     \<and> (\<forall>n<j. map_of (items Sync w1) (chunkKey key n) = Some (Str (cs ! n)))
     \<and> (\<forall>k'. k' \<noteq> key \<and> k' \<notin> chunkKey key ` {0..<j} \<longrightarrow> map_of (items Sync w1) k' = map_of (items Sync w) k')
     \<and> items Local w1 = items Local w"
proof -
  obtain r0 w0 where wc: "writeChunks key cs 0 [] w = (r0, w0)" by (cases "writeChunks key cs 0 [] w")
  from writeChunks_spec[OF wc] obtain j es where j: "j \<le> length cs" "events w0 = events w @ es"
    "(case r0 of Inl f \<Rightarrow> j < length cs \<and> es = map (\<lambda>n. SetOk Sync (chunkKey key n)) [0..<j] @ [SetFailed Sync (chunkKey key j) f]
                  | Inr ks \<Rightarrow> j = length cs \<and> es = map (\<lambda>n. SetOk Sync (chunkKey key n)) [0..<j] \<and> ks = [] @ map (chunkKey key) [0..<length cs])"
    "items Local w0 = items Local w"
    "\<forall>n. 0 \<le> n \<and> n < j \<longrightarrow> map_of (items Sync w0) (chunkKey key n) = Some (Str (cs ! n))"
    "\<forall>k'. k' \<notin> chunkKey key ` {0..<j} \<longrightarrow> map_of (items Sync w0) k' = map_of (items Sync w) k'"
    by auto
  have keynot: "key \<notin> chunkKey key ` {0..<j}"
  proof
    assume "key \<in> chunkKey key ` {0..<j}"
    then obtain n where "key = chunkKey key n" by auto
    then show False using chunkKey_neq_key[of key n] by simp
  qed
  show ?thesis
  proof (cases r0)
    case (Inl f)
    with wc sp have "saveWithChunking stringify now key d w = Some (Inl (StorageError f), w0)"
      by (simp add: saveWithChunking_def)
    moreover have "map_of (items Sync w0) key = map_of (items Sync w) key" using j(6) keynot by simp
    ultimately show ?thesis using j Inl
      by (intro exI[of _ "Inl (StorageError f)"] exI[of _ w0] exI[of _ j]) simp
  next
    case (Inr ks)
    with j(3) have jn: "j = length cs" and ks: "ks = map (chunkKey key) [0..<length cs]"
      and es: "es = map (\<lambda>n. SetOk Sync (chunkKey key n)) [0..<length cs]" by simp_all
    let ?m = "Obj (empty_obj\<lparr>isChunked := True, chunkCount := Some (length cs), chunkKeys := Some ks, timestamp := Some now\<rparr>)"
    obtain r1 w1 where st: "storage_set Sync key ?m w0 = (r1, w1)" by (cases "storage_set Sync key ?m w0")
    show ?thesis
    proof (cases r1)
      case (Inl f)
      with wc sp Inr st have "saveWithChunking stringify now key d w = Some (Inl (StorageError f), w1)"
        by (simp add: saveWithChunking_def)
      moreover note sl = storage_set_Inl[OF st[unfolded Inl]]
      ultimately show ?thesis using j jn es sl(1) sl(2)[of Sync] sl(2)[of Local] keynot
        by (intro exI[of _ "Inl (StorageError f)"] exI[of _ w1] exI[of _ j]) simp
    next
      case (Inr u)
      with wc sp \<open>r0 = Inr ks\<close> st have sv: "saveWithChunking stringify now key d w = Some (Inr True, w1)"
        by (simp add: saveWithChunking_def)
      note sr = storage_set_Inr[OF st[unfolded Inr]]
      have m: "map_of (items Sync w1) = (map_of (items Sync w0))(key \<mapsto> ?m)"
        using sr(2) by (simp add: update_conv')
      have frag: "\<forall>n<j. map_of (items Sync w1) (chunkKey key n) = Some (Str (cs ! n))"
        using m j(5) chunkKey_neq_key[of key] by simp
      have other: "\<forall>k'. k' \<noteq> key \<and> k' \<notin> chunkKey key ` {0..<j} \<longrightarrow> map_of (items Sync w1) k' = map_of (items Sync w) k'"
        using m j(6) by simp
      have loc: "items Local w1 = items Local w" using sr(3)[of Local] j(4) by simp
      have ev: "events w1 = events w @ map (\<lambda>n. SetOk Sync (chunkKey key n)) [0..<length cs] @ [SetOk Sync key]"
        using sr(1) j(2) es by simp
      have mk: "map_of (items Sync w1) key = Some ?m" using m by simp
      from sv jn frag other loc ev mk ks show ?thesis
        by (intro exI[of _ "Inr True"] exI[of _ w1] exI[of _ j]) simp
    qed
  qed
qed

section \<open>The example saves, evaluated\<close>

lemma splitChunks_two:
  assumes "length s = 2 * n" "0 < n"
  shows "splitChunks n s = Some [take n s, drop n s]"
proof -
  have a: "slice s 0 n = take n s" using assms by (simp add: slice_def)
  have b: "slice s n (n + n) = drop n s" using assms by (simp add: slice_def)
  have "split_loop n s (n + n) [take n s, drop n s] = Some [take n s, drop n s]"
    using assms by (subst split_loop.simps) simp
  then have "split_loop n s n [take n s] = Some [take n s, drop n s]"
    using assms b by (subst split_loop.simps) simp
  then show ?thesis unfolding splitChunks_def
    using assms a by (subst split_loop.simps) simp
qed

lemma chunkKey_ex:
  "chunkKey ''profile_work_example.com'' 0 = ''chunk_profile_work_example.com_0''"
  "chunkKey ''profile_work_example.com'' (Suc 0) = ''chunk_profile_work_example.com_1''"
  by code_simp+

lemma split_exOld:
  "splitChunks CHUNK_SIZE (stringifyStr exOld) =
     Some [CHR 0x22 # replicate 6999 (CHR ''a''), replicate 6999 (CHR ''a'') @ [CHR 0x22]]"
proof -
  have r: "replicate 13998 (CHR ''a'') = replicate 6999 (CHR ''a'') @ replicate 6999 (CHR ''a'')"
    by (simp add: replicate_add[symmetric])
  have "splitChunks 7000 (stringifyStr exOld) = Some [take 7000 (stringifyStr exOld), drop 7000 (stringifyStr exOld)]"
    by (rule splitChunks_two) (simp_all add: exOld_def)
  then show ?thesis unfolding exOld_def CHUNK_SIZE_def stringifyStr.simps r
    by (simp add: take_Cons' drop_Cons')
qed

lemma split_exNew:
  "splitChunks CHUNK_SIZE (stringifyStr exNew) =
     Some [CHR 0x22 # replicate 6999 (CHR ''b''), replicate 6999 (CHR ''b'') @ [CHR 0x22]]"
proof -
  have r: "replicate 13998 (CHR ''b'') = replicate 6999 (CHR ''b'') @ replicate 6999 (CHR ''b'')"
    by (simp add: replicate_add[symmetric])
  have "splitChunks 7000 (stringifyStr exNew) = Some [take 7000 (stringifyStr exNew), drop 7000 (stringifyStr exNew)]"
    by (rule splitChunks_two) (simp_all add: exNew_def)
  then show ?thesis unfolding exNew_def CHUNK_SIZE_def stringifyStr.simps r
    by (simp add: take_Cons' drop_Cons')
qed

lemmas run_defs = saveWithChunking_def writeChunks.simps storage_set_def storage_get_def
  next_fault_def record_event_def put_items_def chunkKey_ex empty_obj_def exMeta_def

lemma first_save:
  "saveWithChunking stringifyStr 1000 exKey exOld emptyWorld =
     Some (Inr True, \<lparr>sync_items = committedItems, local_items = [], faults = [],
       events = [SetOk Sync ''chunk_profile_work_example.com_0'',
                 SetOk Sync ''chunk_profile_work_example.com_1'',
                 SetOk Sync ''profile_work_example.com'']\<rparr>)"
  unfolding saveWithChunking_def split_exOld
  by (simp add: run_defs emptyWorld_def committedItems_def exKey_def)

lemma second_save_interrupted:
  "saveWithChunking stringifyStr 2000 exKey exNew
      \<lparr>sync_items = committedItems, local_items = [], faults = [None, Some TransientError], events = []\<rparr> =
     Some (Inl (StorageError TransientError),
       \<lparr>sync_items = interruptedItems, local_items = [], faults = [],
        events = [SetOk Sync ''chunk_profile_work_example.com_0'',
                  SetFailed Sync ''chunk_profile_work_example.com_1'' TransientError]\<rparr>)"
  unfolding saveWithChunking_def split_exNew
  by (simp add: run_defs committedItems_def interruptedItems_def exKey_def)

lemma second_save_committed:
  "saveWithChunking stringifyStr 2000 exKey exNew
      \<lparr>sync_items = committedItems, local_items = [], faults = [], events = es\<rparr> =
     Some (Inr True,
       \<lparr>sync_items = overwrittenItems, local_items = [], faults = [],
        events = es @ [SetOk Sync ''chunk_profile_work_example.com_0'',
                  SetOk Sync ''chunk_profile_work_example.com_1'',
                  SetOk Sync ''profile_work_example.com'']\<rparr>)"
  unfolding saveWithChunking_def split_exNew
  by (simp add: run_defs committedItems_def overwrittenItems_def exKey_def)

lemma plain_ab: "list_all plainChar (replicate n (CHR ''b'') @ replicate m (CHR ''a''))"
  by (auto simp: list_all_iff plainChar_def)

lemma load_interrupted:
  "getChunkedData parseStr exKey
      \<lparr>lastAccessed = None, timestamp = Some 1000, isChunked = True, chunkCount = Some 2,
     chunkKeys = Some [''chunk_profile_work_example.com_0'', ''chunk_profile_work_example.com_1''],
     chunks = None, cookies = None, page = None\<rparr>
      \<lparr>sync_items = interruptedItems, local_items = [], faults = [], events = []\<rparr> =
    (Inr (Str (replicate 6999 (CHR ''b'') @ replicate 6999 (CHR ''a''))),
      \<lparr>sync_items = interruptedItems, local_items = [], faults = [],
        events = [GetOk Sync ''chunk_profile_work_example.com_0'', GetOk Sync ''chunk_profile_work_example.com_1'']\<rparr>)"
  using plain_ab[of 6999 6999]
  by (simp add: getChunkedData_def run_defs interruptedItems_def items_def joinVals_def parseStr_def butlast_append exKey_def)

section \<open>The fragment loop of saveWithChunks\<close>

lemma sleep_simps [simp]:
  "items a (sleep n w) = items a w"
  "events (sleep n w) = events w @ [Sleep n]"
  by (simp_all add: sleep_def)

lemma setWithRetries_spec:
  assumes "setWithRetries a k v r w = (res, w1)" and "r < maxRetries"
  shows "\<exists>es. events w1 = events w @ es
      \<and> (case res of
            Inr u \<Rightarrow> writtenKeys a es = [k] \<and> items a w1 = AList.update k v (items a w)
          | Inl f \<Rightarrow> writtenKeys a es = [] \<and> items a w1 = items a w)
      \<and> (\<forall>b. b \<noteq> a \<longrightarrow> items b w1 = items b w)"
  using assms
proof (induction a k v r w rule: setWithRetries.induct)
  case (1 a k v retries w)
  obtain r0 w0 where s: "storage_set a k v w = (r0, w0)" by (cases "storage_set a k v w")
  show ?case
  proof (cases r0)
    case (Inr u)
    with "1.prems" s have rw: "res = Inr ()" "w1 = w0"
      by (simp_all add: setWithRetries.simps[of a k v retries])
    from storage_set_Inr[OF s[unfolded Inr]] rw
    show ?thesis by (intro exI[of _ "[SetOk a k]"]) simp
  next
    case (Inl f)
    note sl = storage_set_Inl[OF s[unfolded Inl]]
    show ?thesis
    proof (cases "Suc retries = maxRetries")
      case True
      with "1.prems" s Inl have rw: "res = Inl f" "w1 = w0"
        by (simp_all add: setWithRetries.simps[of a k v retries])
      with sl show ?thesis by (intro exI[of _ "[SetFailed a k f]"]) simp
    next
      case False
      with "1.prems" s Inl have rec:
        "setWithRetries a k v (Suc retries) (sleep (100 * Suc retries) w0) = (res, w1)"
        by (simp add: setWithRetries.simps[of a k v retries])
      have lt: "Suc retries < maxRetries" using False "1.prems"(2) by simp
      from "1.IH"[OF "1.prems"(2) s[symmetric] _ False rec lt] Inl
      obtain es where es: "events w1 = events (sleep (100 * Suc retries) w0) @ es"
        "(case res of
            Inr u \<Rightarrow> writtenKeys a es = [k] \<and> items a w1 = AList.update k v (items a (sleep (100 * Suc retries) w0))
          | Inl f \<Rightarrow> writtenKeys a es = [] \<and> items a w1 = items a (sleep (100 * Suc retries) w0))"
        "\<forall>b. b \<noteq> a \<longrightarrow> items b w1 = items b (sleep (100 * Suc retries) w0)"
        by auto
      show ?thesis
        using es sl(1) sl(2)[of a] sl(2)
        by (intro exI[of _ "SetFailed a k f # Sleep (100 * Suc retries) # es"])
           (cases res; simp)
    qed
  qed
qed

lemma maxRetries_pos: "0 < maxRetries" by (simp add: maxRetries_def)

lemma writeChunksRetrying_spec:
  assumes "writeChunksRetrying a key cs i w = (r, w1)" and "i \<le> length cs"
  shows "\<exists>j es. i \<le> j \<and> j \<le> length cs
      \<and> events w1 = events w @ es
      \<and> writtenKeys a es = map (utilsChunkKey key) [i..<j]
      \<and> (case r of Inl f \<Rightarrow> j < length cs | Inr u \<Rightarrow> j = length cs)
      \<and> (\<forall>b. b \<noteq> a \<longrightarrow> items b w1 = items b w)
      \<and> (\<forall>n. i \<le> n \<and> n < j \<longrightarrow> map_of (items a w1) (utilsChunkKey key n) = Some (Str (cs ! n)))
      \<and> (\<forall>k'. k' \<notin> utilsChunkKey key ` {i..<j} \<longrightarrow> map_of (items a w1) k' = map_of (items a w) k')"
  using assms
proof (induction a key cs i w rule: writeChunksRetrying.induct)
  case (1 a key cs i w)
  show ?case
  proof (cases "i < length cs")
    case False
    with "1.prems" have "r = Inr ()" "w1 = w" "i = length cs"
      by (simp_all add: writeChunksRetrying.simps[of a key cs i])
    then show ?thesis by (intro exI[of _ i] exI[of _ "[]"]) auto
  next
    case True
    obtain r0 w0 where s: "setWithRetries a (utilsChunkKey key i) (Str (cs ! i)) 0 w = (r0, w0)"
      by (cases "setWithRetries a (utilsChunkKey key i) (Str (cs ! i)) 0 w")
    from setWithRetries_spec[OF s maxRetries_pos]
    obtain es0 where es0: "events w0 = events w @ es0"
      "(case r0 of
            Inr u \<Rightarrow> writtenKeys a es0 = [utilsChunkKey key i] \<and> items a w0 = AList.update (utilsChunkKey key i) (Str (cs ! i)) (items a w)
          | Inl f \<Rightarrow> writtenKeys a es0 = [] \<and> items a w0 = items a w)"
      "\<forall>b. b \<noteq> a \<longrightarrow> items b w0 = items b w" by blast
    show ?thesis
    proof (cases r0)
      case (Inl f)
      with "1.prems" True s have rw: "r = Inl f" "w1 = w0"
        by (simp_all add: writeChunksRetrying.simps[of a key cs i])
      from es0 Inl rw True
      show ?thesis by (intro exI[of _ i] exI[of _ es0]) auto
    next
      case (Inr u)
      with "1.prems" True s have rec: "writeChunksRetrying a key cs (Suc i) w0 = (r, w1)"
        by (simp add: writeChunksRetrying.simps[of a key cs i])
      from "1.IH"[OF True s[symmetric] _ rec] Inr True
      obtain j es where j: "Suc i \<le> j" "j \<le> length cs" "events w1 = events w0 @ es"
        "writtenKeys a es = map (utilsChunkKey key) [Suc i..<j]"
        "(case r of Inl f \<Rightarrow> j < length cs | Inr u \<Rightarrow> j = length cs)"
        "\<forall>b. b \<noteq> a \<longrightarrow> items b w1 = items b w0"
        "\<forall>n. Suc i \<le> n \<and> n < j \<longrightarrow> map_of (items a w1) (utilsChunkKey key n) = Some (Str (cs ! n))"
        "\<forall>k'. k' \<notin> utilsChunkKey key ` {Suc i..<j} \<longrightarrow> map_of (items a w1) k' = map_of (items a w0) k'"
        by auto
      from es0(2) Inr have wk: "writtenKeys a es0 = [utilsChunkKey key i]"
        and it: "items a w0 = AList.update (utilsChunkKey key i) (Str (cs ! i)) (items a w)" by simp_all
      have up: "[i..<j] = i # [Suc i..<j]" using j(1) by (simp add: upt_conv_Cons)
      have w0: "map_of (items a w0) = (map_of (items a w))(utilsChunkKey key i \<mapsto> Str (cs ! i))"
        using it by (simp add: update_conv')
      have A: "events w1 = events w @ (es0 @ es)" using j(3) es0(1) by simp
      have B: "writtenKeys a (es0 @ es) = map (utilsChunkKey key) [i..<j]"
        using j(4) up wk by simp
      have D: "\<forall>b. b \<noteq> a \<longrightarrow> items b w1 = items b w" using j(6) es0(3) by simp
      have E: "\<forall>n. i \<le> n \<and> n < j \<longrightarrow> map_of (items a w1) (utilsChunkKey key n) = Some (Str (cs ! n))"
      proof (intro allI impI)
        fix n assume n: "i \<le> n \<and> n < j"
        show "map_of (items a w1) (utilsChunkKey key n) = Some (Str (cs ! n))"
        proof (cases "n = i")
          case False
          with n show ?thesis using j(7) by simp
        next
          case True
          have "utilsChunkKey key i \<notin> utilsChunkKey key ` {Suc i..<j}"
            by (auto dest: utilsChunkKey_inj)
          then show ?thesis using j(8) w0 True by simp
        qed
      qed
      have F: "\<forall>k'. k' \<notin> utilsChunkKey key ` {i..<j} \<longrightarrow> map_of (items a w1) k' = map_of (items a w) k'"
      proof (intro allI impI)
        fix k' assume k: "k' \<notin> utilsChunkKey key ` {i..<j}"
        have split: "{i..<j} = insert i {Suc i..<j}" using j(1) by auto
        from k split have "k' \<noteq> utilsChunkKey key i" "k' \<notin> utilsChunkKey key ` {Suc i..<j}" by auto
        then show "map_of (items a w1) k' = map_of (items a w) k'" using j(8) w0 by simp
      qed
      from \<open>Suc i \<le> j\<close> j(2) j(5) A B D E F show ?thesis
        by (intro exI[of _ j] exI[of _ "es0 @ es"]) simp
    qed
  qed
qed

section \<open>saveWithChunks as a whole, and the order of writes\<close>

lemma chunkSize_utils_pos: "0 < chunkSize_utils" by (simp add: chunkSize_utils_def)

lemma utilsChunkKey_not_meta: "metaKey key \<notin> utilsChunkKey key ` S"
proof
  assume "metaKey key \<in> utilsChunkKey key ` S"
  then obtain n where "metaKey key = utilsChunkKey key n" by auto
  then show False using utilsChunkKey_neq_meta[of key n] by simp
qed

lemma saveWithChunks_spec:
  assumes c: "compress d = Inr c" and sp: "splitChunks chunkSize_utils c = Some cs"
  shows "\<exists>r w1 j es. saveWithChunks compress now key d l w = Some (r, w1) \<and> j \<le> length cs
     \<and> events w1 = events w @ es
     \<and> writtenKeys (storageArea l) es =
          map (utilsChunkKey key) [0..<j] @ (case r of Inr u \<Rightarrow> [metaKey key] | Inl e \<Rightarrow> [])
     \<and> (case r of
          Inr u \<Rightarrow> j = length cs
            \<and> map_of (items (storageArea l) w1) (metaKey key) =
                Some (Obj (empty_obj\<lparr>chunks := Some (length cs), timestamp := Some now\<rparr>))
        | Inl e \<Rightarrow> map_of (items (storageArea l) w1) (metaKey key)
                   = map_of (items (storageArea l) w) (metaKey key))
     \<and> (\<forall>n<j. map_of (items (storageArea l) w1) (utilsChunkKey key n) = Some (Str (cs ! n)))
     \<and> (\<forall>k'. k' \<noteq> metaKey key \<and> k' \<notin> utilsChunkKey key ` {0..<j}
           \<longrightarrow> map_of (items (storageArea l) w1) k' = map_of (items (storageArea l) w) k')
     \<and> (\<forall>b. b \<noteq> storageArea l \<longrightarrow> items b w1 = items b w)"
proof -
  let ?a = "storageArea l"
  obtain r0 w0 where wc: "writeChunksRetrying ?a key cs 0 w = (r0, w0)"
    by (cases "writeChunksRetrying ?a key cs 0 w")
  from writeChunksRetrying_spec[OF wc] obtain j es where j: "j \<le> length cs"
    "events w0 = events w @ es"
    "writtenKeys ?a es = map (utilsChunkKey key) [0..<j]"
    "(case r0 of Inl f \<Rightarrow> j < length cs | Inr u \<Rightarrow> j = length cs)"
    "\<forall>b. b \<noteq> ?a \<longrightarrow> items b w0 = items b w"
    "\<forall>n. 0 \<le> n \<and> n < j \<longrightarrow> map_of (items ?a w0) (utilsChunkKey key n) = Some (Str (cs ! n))"
    "\<forall>k'. k' \<notin> utilsChunkKey key ` {0..<j} \<longrightarrow> map_of (items ?a w0) k' = map_of (items ?a w) k'"
    by auto
  note keynot = utilsChunkKey_not_meta[of key "{0..<j}"]
  show ?thesis
  proof (cases r0)
    case (Inl f)
    with wc sp c have "saveWithChunks compress now key d l w = Some (Inl (StorageError f), w0)"
      by (simp add: saveWithChunks_def)
    moreover have "map_of (items ?a w0) (metaKey key) = map_of (items ?a w) (metaKey key)"
      using j(7) keynot by simp
    ultimately show ?thesis using j Inl
      by (intro exI[of _ "Inl (StorageError f)"] exI[of _ w0] exI[of _ j] exI[of _ es]) simp
  next
    case (Inr u)
    with j(4) have jn: "j = length cs" by simp
    let ?m = "Obj (empty_obj\<lparr>chunks := Some (length cs), timestamp := Some now\<rparr>)"
    obtain r1 w1 where st: "storage_set ?a (metaKey key) ?m w0 = (r1, w1)"
      by (cases "storage_set ?a (metaKey key) ?m w0")
    show ?thesis
    proof (cases r1)
      case (Inl f)
      with wc sp c Inr st have "saveWithChunks compress now key d l w = Some (Inl (StorageError f), w1)"
        by (simp add: saveWithChunks_def)
      moreover note sl = storage_set_Inl[OF st[unfolded Inl]]
      ultimately show ?thesis using j sl(1) sl(2) keynot
        by (intro exI[of _ "Inl (StorageError f)"] exI[of _ w1] exI[of _ j]
              exI[of _ "es @ [SetFailed ?a (metaKey key) f]"]) simp
    next
      case (Inr u2)
      with wc sp c \<open>r0 = Inr u\<close> st have sv: "saveWithChunks compress now key d l w = Some (Inr (), w1)"
        by (simp add: saveWithChunks_def)
      note sr = storage_set_Inr[OF st[unfolded Inr]]
      have m: "map_of (items ?a w1) = (map_of (items ?a w0))(metaKey key \<mapsto> ?m)"
        using sr(2) by (simp add: update_conv')
      have frag: "\<forall>n<j. map_of (items ?a w1) (utilsChunkKey key n) = Some (Str (cs ! n))"
        using m j(6) utilsChunkKey_neq_meta[of key] by simp
      have other: "\<forall>k'. k' \<noteq> metaKey key \<and> k' \<notin> utilsChunkKey key ` {0..<j}
           \<longrightarrow> map_of (items ?a w1) k' = map_of (items ?a w) k'"
        using m j(7) by simp
      have loc: "\<forall>b. b \<noteq> ?a \<longrightarrow> items b w1 = items b w" using sr(3) j(5) by simp
      have ev: "events w1 = events w @ (es @ [SetOk ?a (metaKey key)])"
        using sr(1) j(2) by simp
      have mk: "map_of (items ?a w1) (metaKey key) = Some ?m" using m by simp
      from sv jn frag other loc ev mk j(3) show ?thesis
        by (intro exI[of _ "Inr ()"] exI[of _ w1] exI[of _ j] exI[of _ "es @ [SetOk ?a (metaKey key)]"]) simp
    qed
  qed
qed

lemma writtenKeys_map_SetOk [simp]:
  "writtenKeys a (map (\<lambda>n. SetOk a (g n)) ns) = map g ns"
  by (induction ns) simp_all

text \<open>
  Claim C2, as the code has it. Both chunked saves write their fragments one at a time in
  increasing index order and write the metadata entry only after every fragment write went
  through: the keys written are the first \<open>j\<close> fragment keys in order, followed by the
  metadata key exactly when the save succeeds, and then \<open>j\<close> is the number of fragments.
  A save that fails leaves the entry at the metadata key as it was before the save.
\<close>

theorem metadata_written_last:
  "(\<exists>cs r w1 j. splitChunks CHUNK_SIZE (stringify d) = Some cs
      \<and> saveWithChunking stringify now key d w = Some (r, w1) \<and> j \<le> length cs
      \<and> writtenKeys Sync (drop (length (events w)) (events w1)) =
           map (chunkKey key) [0..<j] @ (case r of Inr ok \<Rightarrow> [key] | Inl e \<Rightarrow> [])
      \<and> (case r of Inr ok \<Rightarrow> j = length cs
                  | Inl e \<Rightarrow> map_of (sync_items w1) key = map_of (sync_items w) key))
 \<and> (case compress d of
       Inl e \<Rightarrow> saveWithChunks compress now key d l w = Some (Inl e, w)
     | Inr c \<Rightarrow>
        (\<exists>cs r w1 j. splitChunks chunkSize_utils c = Some cs
          \<and> saveWithChunks compress now key d l w = Some (r, w1) \<and> j \<le> length cs
          \<and> writtenKeys (storageArea l) (drop (length (events w)) (events w1)) =
               map (utilsChunkKey key) [0..<j] @ (case r of Inr u \<Rightarrow> [metaKey key] | Inl e \<Rightarrow> [])
          \<and> (case r of Inr u \<Rightarrow> j = length cs
                      | Inl e \<Rightarrow> map_of (items (storageArea l) w1) (metaKey key)
                                 = map_of (items (storageArea l) w) (metaKey key))))"
proof
  obtain cs where sp: "splitChunks CHUNK_SIZE (stringify d) = Some cs"
    using splitChunks_total[OF CHUNK_SIZE_pos] by blast
  from saveWithChunking_spec[where stringify=stringify and d=d and now=now and key=key and w=w, OF sp]
  obtain r w1 j where s: "saveWithChunking stringify now key d w = Some (r, w1)" "j \<le> length cs"
    and c: "(case r of
        Inr ok \<Rightarrow> ok \<and> j = length cs
          \<and> events w1 = events w @ map (\<lambda>n. SetOk Sync (chunkKey key n)) [0..<length cs] @ [SetOk Sync key]
          \<and> map_of (items Sync w1) key = Some (Obj (empty_obj\<lparr>isChunked := True,
                 chunkCount := Some (length cs), chunkKeys := Some (map (chunkKey key) [0..<length cs]),
                 timestamp := Some now\<rparr>))
      | Inl e \<Rightarrow> (\<exists>f k. e = StorageError f \<and> k = (if j < length cs then chunkKey key j else key)
          \<and> events w1 = events w @ map (\<lambda>n. SetOk Sync (chunkKey key n)) [0..<j] @ [SetFailed Sync k f])
          \<and> map_of (items Sync w1) key = map_of (items Sync w) key)"
    by blast
  have "writtenKeys Sync (drop (length (events w)) (events w1)) =
           map (chunkKey key) [0..<j] @ (case r of Inr ok \<Rightarrow> [key] | Inl e \<Rightarrow> [])
      \<and> (case r of Inr ok \<Rightarrow> j = length cs
                  | Inl e \<Rightarrow> map_of (sync_items w1) key = map_of (sync_items w) key)"
    using c by (cases r) (auto simp: sync_items_items)
  with sp s show "\<exists>cs r w1 j. splitChunks CHUNK_SIZE (stringify d) = Some cs
      \<and> saveWithChunking stringify now key d w = Some (r, w1) \<and> j \<le> length cs
      \<and> writtenKeys Sync (drop (length (events w)) (events w1)) =
           map (chunkKey key) [0..<j] @ (case r of Inr ok \<Rightarrow> [key] | Inl e \<Rightarrow> [])
      \<and> (case r of Inr ok \<Rightarrow> j = length cs
                  | Inl e \<Rightarrow> map_of (sync_items w1) key = map_of (sync_items w) key)"
    by blast
next
  show "case compress d of
       Inl e \<Rightarrow> saveWithChunks compress now key d l w = Some (Inl e, w)
     | Inr c \<Rightarrow>
        (\<exists>cs r w1 j. splitChunks chunkSize_utils c = Some cs
          \<and> saveWithChunks compress now key d l w = Some (r, w1) \<and> j \<le> length cs
          \<and> writtenKeys (storageArea l) (drop (length (events w)) (events w1)) =
               map (utilsChunkKey key) [0..<j] @ (case r of Inr u \<Rightarrow> [metaKey key] | Inl e \<Rightarrow> [])
          \<and> (case r of Inr u \<Rightarrow> j = length cs
                      | Inl e \<Rightarrow> map_of (items (storageArea l) w1) (metaKey key)
                                 = map_of (items (storageArea l) w) (metaKey key)))"
  proof (cases "compress d")
    case (Inl e)
    then show ?thesis by (simp add: saveWithChunks_def)
  next
    case (Inr c)
    obtain cs where sp: "splitChunks chunkSize_utils c = Some cs"
      using splitChunks_total[OF chunkSize_utils_pos] by blast
    from saveWithChunks_spec[where compress=compress and d=d and now=now and key=key and l=l and w=w, OF Inr sp]
    obtain r w1 j es where s: "saveWithChunks compress now key d l w = Some (r, w1)" "j \<le> length cs"
      "events w1 = events w @ es"
      "writtenKeys (storageArea l) es =
          map (utilsChunkKey key) [0..<j] @ (case r of Inr u \<Rightarrow> [metaKey key] | Inl e \<Rightarrow> [])"
      "(case r of
          Inr u \<Rightarrow> j = length cs
            \<and> map_of (items (storageArea l) w1) (metaKey key) =
                Some (Obj (empty_obj\<lparr>chunks := Some (length cs), timestamp := Some now\<rparr>))
        | Inl e \<Rightarrow> map_of (items (storageArea l) w1) (metaKey key)
                   = map_of (items (storageArea l) w) (metaKey key))"
      by blast
    have "(case r of Inr u \<Rightarrow> j = length cs
                      | Inl e \<Rightarrow> map_of (items (storageArea l) w1) (metaKey key)
                                 = map_of (items (storageArea l) w) (metaKey key))"
      using s(5) by (cases r) auto
    with sp s(1-4) Inr show ?thesis by auto
  qed
qed

text \<open>A run of the interrupted save, as the theorem above describes it.\<close>

theorem metadata_written_last_witness:
  "\<exists>cs r w1 j. splitChunks CHUNK_SIZE (stringifyStr exNew) = Some cs
      \<and> saveWithChunking stringifyStr 2000 exKey exNew
           \<lparr>sync_items = committedItems, local_items = [], faults = [None, Some TransientError], events = []\<rparr>
          = Some (r, w1) \<and> j \<le> length cs
      \<and> writtenKeys Sync (events w1) = map (chunkKey exKey) [0..<j]
      \<and> r = Inl (StorageError TransientError)
      \<and> map_of (sync_items w1) exKey = Some (exMeta 1000)"
proof -
  let ?w = "\<lparr>sync_items = committedItems, local_items = [],
              faults = [None, Some TransientError], events = []\<rparr>"
  from metadata_written_last[of stringifyStr exNew 2000 exKey ?w "\<lambda>v. Inl CodecError" False]
  obtain cs r w1 j where h: "splitChunks CHUNK_SIZE (stringifyStr exNew) = Some cs"
    "saveWithChunking stringifyStr 2000 exKey exNew ?w = Some (r, w1)" "j \<le> length cs"
    "writtenKeys Sync (drop (length (events ?w)) (events w1)) =
           map (chunkKey exKey) [0..<j] @ (case r of Inr ok \<Rightarrow> [exKey] | Inl e \<Rightarrow> [])"
    "(case r of Inr ok \<Rightarrow> j = length cs
                  | Inl e \<Rightarrow> map_of (sync_items w1) exKey = map_of (sync_items ?w) exKey)"
    by blast
  from h(2) second_save_interrupted have r: "r = Inl (StorageError TransientError)" by simp
  have "map_of committedItems exKey = Some (exMeta 1000)"
    by (simp add: committedItems_def exKey_def)
  with h r show ?thesis by auto
qed

text \<open>
  Claim C2, refuted as stated. A profile was saved and committed in two fragments; a second save
  to the same key is cut off after its first fragment. The metadata of the first save is still
  the entry at the key, its first fragment key now holds the second save's fragment, and the
  load reassembles a value that mixes the two versions: the partial write is live.
\<close>

theorem interrupted_save_read_through_old_metadata:
  "saveWithChunking stringifyStr 1000 exKey exOld emptyWorld =
     Some (Inr True, \<lparr>sync_items = committedItems, local_items = [], faults = [],
       events = [SetOk Sync ''chunk_profile_work_example.com_0'',
                 SetOk Sync ''chunk_profile_work_example.com_1'',
                 SetOk Sync ''profile_work_example.com'']\<rparr>)
 \<and> saveWithChunking stringifyStr 2000 exKey exNew
      \<lparr>sync_items = committedItems, local_items = [], faults = [None, Some TransientError], events = []\<rparr> =
     Some (Inl (StorageError TransientError),
       \<lparr>sync_items = interruptedItems, local_items = [], faults = [],
        events = [SetOk Sync ''chunk_profile_work_example.com_0'',
                  SetFailed Sync ''chunk_profile_work_example.com_1'' TransientError]\<rparr>)
 \<and> map_of interruptedItems exKey = Some (exMeta 1000)
 \<and> getChunkedData parseStr exKey
      \<lparr>lastAccessed = None, timestamp = Some 1000, isChunked = True, chunkCount = Some 2,
     chunkKeys = Some [''chunk_profile_work_example.com_0'', ''chunk_profile_work_example.com_1''],
     chunks = None, cookies = None, page = None\<rparr>
      \<lparr>sync_items = interruptedItems, local_items = [], faults = [], events = []\<rparr> =
    (Inr (Str (replicate 6999 (CHR ''b'') @ replicate 6999 (CHR ''a''))),
      \<lparr>sync_items = interruptedItems, local_items = [], faults = [],
        events = [GetOk Sync ''chunk_profile_work_example.com_0'', GetOk Sync ''chunk_profile_work_example.com_1'']\<rparr>)"
  using first_save second_save_interrupted load_interrupted
  by (simp add: interruptedItems_def exKey_def)

section \<open>Successive saves to one key\<close>

text \<open>
  Claim C9, as the code has it. Fragment keys are derived from the logical key and the index
  alone, so two successive committed saves to one key use the same fragment keys: the later
  metadata lists \<^verbatim>\<open>chunk_<key>_<i>\<close> for every index below its fragment count, each of these
  keys now holds the later save's fragment (overwritten in place where the earlier save had
  one), and only the earlier fragments at or beyond the later count are left behind,
  unreferenced. The metadata entry is replaced.
\<close>

theorem fragment_keys_reused:
  assumes s1: "saveWithChunking stringify t1 key d1 w = Some (Inr True, w1)"
      and s2: "saveWithChunking stringify t2 key d2 w1 = Some (Inr True, w2)"
  shows "\<exists>cs1 cs2 m1 m2.
       splitChunks CHUNK_SIZE (stringify d1) = Some cs1 \<and> splitChunks CHUNK_SIZE (stringify d2) = Some cs2
     \<and> map_of (sync_items w1) key = Some (Obj m1) \<and> chunkKeys m1 = Some (map (chunkKey key) [0..<length cs1])
     \<and> map_of (sync_items w2) key = Some (Obj m2) \<and> chunkKeys m2 = Some (map (chunkKey key) [0..<length cs2])
     \<and> (\<forall>i. i < length cs1 \<longrightarrow> map_of (sync_items w1) (chunkKey key i) = Some (Str (cs1 ! i)))
     \<and> (\<forall>i. i < length cs2 \<longrightarrow> map_of (sync_items w2) (chunkKey key i) = Some (Str (cs2 ! i)))
     \<and> (\<forall>i. length cs2 \<le> i \<and> i < length cs1 \<longrightarrow>
            map_of (sync_items w2) (chunkKey key i) = Some (Str (cs1 ! i))
          \<and> chunkKey key i \<notin> set (map (chunkKey key) [0..<length cs2]))"
proof -
  obtain cs1 where sp1: "splitChunks CHUNK_SIZE (stringify d1) = Some cs1"
    using splitChunks_total[OF CHUNK_SIZE_pos] by blast
  obtain cs2 where sp2: "splitChunks CHUNK_SIZE (stringify d2) = Some cs2"
    using splitChunks_total[OF CHUNK_SIZE_pos] by blast
  from saveWithChunking_spec[where stringify=stringify and d=d1 and now=t1 and key=key and w=w, OF sp1] s1
  have a: "map_of (items Sync w1) key = Some (Obj (empty_obj\<lparr>isChunked := True,
                 chunkCount := Some (length cs1), chunkKeys := Some (map (chunkKey key) [0..<length cs1]),
                 timestamp := Some t1\<rparr>))"
    and a2: "\<forall>n<length cs1. map_of (items Sync w1) (chunkKey key n) = Some (Str (cs1 ! n))"
    by auto
  from saveWithChunking_spec[where stringify=stringify and d=d2 and now=t2 and key=key and w=w1, OF sp2] s2
  have b: "map_of (items Sync w2) key = Some (Obj (empty_obj\<lparr>isChunked := True,
                 chunkCount := Some (length cs2), chunkKeys := Some (map (chunkKey key) [0..<length cs2]),
                 timestamp := Some t2\<rparr>))"
    and b2: "\<forall>n<length cs2. map_of (items Sync w2) (chunkKey key n) = Some (Str (cs2 ! n))"
    and b3: "\<forall>k'. k' \<noteq> key \<and> k' \<notin> chunkKey key ` {0..<length cs2} \<longrightarrow> map_of (items Sync w2) k' = map_of (items Sync w1) k'"
    by auto
  have c: "\<forall>i. length cs2 \<le> i \<and> i < length cs1 \<longrightarrow>
            map_of (sync_items w2) (chunkKey key i) = Some (Str (cs1 ! i))
          \<and> chunkKey key i \<notin> set (map (chunkKey key) [0..<length cs2])"
  proof (intro allI impI)
    fix i assume i: "length cs2 \<le> i \<and> i < length cs1"
    have n: "chunkKey key i \<notin> chunkKey key ` {0..<length cs2}"
      using i by (auto dest: chunkKey_inj)
    with b3 chunkKey_neq_key[of key i] have "map_of (items Sync w2) (chunkKey key i) = map_of (items Sync w1) (chunkKey key i)"
      by simp
    with a2 i n show "map_of (sync_items w2) (chunkKey key i) = Some (Str (cs1 ! i))
          \<and> chunkKey key i \<notin> set (map (chunkKey key) [0..<length cs2])"
      by (simp add: sync_items_items)
  qed
  show ?thesis
    apply (rule exI[of _ cs1])
    apply (rule exI[of _ cs2])
    apply (rule exI[of _ "empty_obj\<lparr>isChunked := True,
                 chunkCount := Some (length cs1), chunkKeys := Some (map (chunkKey key) [0..<length cs1]),
                 timestamp := Some t1\<rparr>"])
    apply (rule exI[of _ "empty_obj\<lparr>isChunked := True,
                 chunkCount := Some (length cs2), chunkKeys := Some (map (chunkKey key) [0..<length cs2]),
                 timestamp := Some t2\<rparr>"])
    using sp1 sp2 a a2 b b2 c by (simp add: sync_items_items)
qed

text \<open>The two example saves, one after the other, as an instance of the theorem.\<close>

theorem fragment_keys_reused_witness:
  "\<exists>cs1 cs2 m1 m2.
       splitChunks CHUNK_SIZE (stringifyStr exOld) = Some cs1
     \<and> splitChunks CHUNK_SIZE (stringifyStr exNew) = Some cs2
     \<and> map_of committedItems exKey = Some (Obj m1)
     \<and> chunkKeys m1 = Some (map (chunkKey exKey) [0..<length cs1])
     \<and> map_of overwrittenItems exKey = Some (Obj m2)
     \<and> chunkKeys m2 = Some (map (chunkKey exKey) [0..<length cs2])
     \<and> length cs1 = 2 \<and> length cs2 = 2"
proof -
  let ?w1 = "\<lparr>sync_items = committedItems, local_items = [], faults = [],
       events = [SetOk Sync ''chunk_profile_work_example.com_0'',
                 SetOk Sync ''chunk_profile_work_example.com_1'',
                 SetOk Sync ''profile_work_example.com'']\<rparr>"
  let ?w2 = "\<lparr>sync_items = overwrittenItems, local_items = [], faults = [],
        events = [SetOk Sync ''chunk_profile_work_example.com_0'',
                 SetOk Sync ''chunk_profile_work_example.com_1'',
                 SetOk Sync ''profile_work_example.com''] @ [SetOk Sync ''chunk_profile_work_example.com_0'',
                  SetOk Sync ''chunk_profile_work_example.com_1'',
                  SetOk Sync ''profile_work_example.com'']\<rparr>"
  from fragment_keys_reused[of stringifyStr 1000 exKey exOld emptyWorld ?w1 2000 exNew ?w2,
      OF first_save second_save_committed]
  show ?thesis unfolding split_exOld split_exNew by auto
qed

text \<open>
  Claim C9, refuted as stated: the second save writes its first fragment under the key the
  first, committed save used, and the committed fragment is overwritten in place.
\<close>

theorem committed_fragment_overwritten:
  "saveWithChunking stringifyStr 1000 exKey exOld emptyWorld =
     Some (Inr True, \<lparr>sync_items = committedItems, local_items = [], faults = [],
       events = [SetOk Sync ''chunk_profile_work_example.com_0'',
                 SetOk Sync ''chunk_profile_work_example.com_1'',
                 SetOk Sync ''profile_work_example.com'']\<rparr>)
 \<and> saveWithChunking stringifyStr 2000 exKey exNew
      \<lparr>sync_items = committedItems, local_items = [], faults = [], events = []\<rparr> =
     Some (Inr True,
       \<lparr>sync_items = overwrittenItems, local_items = [], faults = [],
        events = [SetOk Sync ''chunk_profile_work_example.com_0'',
                  SetOk Sync ''chunk_profile_work_example.com_1'',
                  SetOk Sync ''profile_work_example.com'']\<rparr>)
 \<and> map_of committedItems ''chunk_profile_work_example.com_0''
       = Some (Str (CHR 0x22 # replicate 6999 (CHR ''a'')))
 \<and> map_of overwrittenItems ''chunk_profile_work_example.com_0''
       = Some (Str (CHR 0x22 # replicate 6999 (CHR ''b'')))"
  using first_save second_save_committed[of "[]"]
  by (simp add: committedItems_def overwrittenItems_def)

section \<open>Loading a chunked record\<close>

lemma storage_get_nofault:
  "faults w = [] \<Longrightarrow> storage_get a k w = (Inr (map_of (items a w) k), w\<lparr>events := events w @ [GetOk a k]\<rparr>)"
  by (simp add: storage_get_def next_fault_def record_event_def)




lemma getWithRetries_nofault:
  "faults w = [] \<Longrightarrow> getWithRetries a k 0 w =
      (Inr [map_of (items a w) k], w\<lparr>events := events w @ [GetOk a k]\<rparr>)"
  by (subst getWithRetries.simps) (simp add: maxRetries_def storage_get_nofault)

lemma readChunksRetrying_nofault:
  "faults w = [] \<Longrightarrow> i \<le> n \<Longrightarrow>
     readChunksRetrying a key n i acc w =
       (Inr (acc @ map (\<lambda>j. map_of (items a w) (utilsChunkKey key j)) [i..<n]),
        w\<lparr>events := events w @ map (\<lambda>j. GetOk a (utilsChunkKey key j)) [i..<n]\<rparr>)"
proof (induction a key n i acc w rule: readChunksRetrying.induct)
  case (1 a key n i acc w)
  show ?case
  proof (cases "i < n")
    case False
    with "1.prems" show ?thesis by (subst readChunksRetrying.simps) simp
  next
    case True
    let ?w = "w\<lparr>events := events w @ [GetOk a (utilsChunkKey key i)]\<rparr>"
    have g: "getWithRetries a (utilsChunkKey key i) 0 w = (Inr [map_of (items a w) (utilsChunkKey key i)], ?w)"
      using "1.prems"(1) by (rule getWithRetries_nofault)
    have f: "faults ?w = []" using "1.prems"(1) by simp
    have le: "Suc i \<le> n" using True by simp
    have up: "[i..<n] = i # [Suc i..<n]" using True by (simp add: upt_conv_Cons)
    from "1.IH"[OF True g[symmetric] _ f le]
    have "readChunksRetrying a key n (Suc i) (acc @ [map_of (items a w) (utilsChunkKey key i)]) ?w =
       (Inr ((acc @ [map_of (items a w) (utilsChunkKey key i)]) @ map (\<lambda>j. map_of (items a ?w) (utilsChunkKey key j)) [Suc i..<n]),
        ?w\<lparr>events := events ?w @ map (\<lambda>j. GetOk a (utilsChunkKey key j)) [Suc i..<n]\<rparr>)"
      by simp
    then show ?thesis using True g up
      by (subst readChunksRetrying.simps) simp
  qed
qed

lemma loadFromChunks_nofault:
  assumes "faults w = []"
  shows "fst (loadFromChunks decompress key l w) =
     (if \<not> truthy (map_of (items (storageArea l) w) (metaKey key)) then Inr None
      else
        (case decompress (concat (map (\<lambda>i. toJoinString (map_of (items (storageArea l) w) (utilsChunkKey key i)))
                 [0..<metaChunks (map_of (items (storageArea l) w) (metaKey key))])) of
           Inl e \<Rightarrow> Inl e | Inr v \<Rightarrow> Inr (Some v)))"
proof -
  let ?a = "storageArea l"
  let ?w = "w\<lparr>events := events w @ [GetOk ?a (metaKey key)]\<rparr>"
  have f: "faults ?w = []" using assms by simp
  show ?thesis
    using assms readChunksRetrying_nofault[OF f, of 0 "metaChunks (map_of (items ?a w) (metaKey key))" ?a key "[]"]
    by (simp add: loadFromChunks_def storage_get_nofault joinVals_def comp_def split: sum.splits)
qed





text \<open>
  In the layout of utils.js a record with a missing fragment is not reported absent either:
  the load goes on to decompress what is left, and a decompressor that rejects the truncated
  text makes the load fail with that error.
\<close>

lemma utils_gap_not_absent:
  "map_of (sync_items gapUtilsWorld) ''profile_work_example.com_chunk_1'' = None
 \<and> fst (loadFromChunks (\<lambda>s. Inl CodecError) exKey False gapUtilsWorld) = Inl CodecError"
proof -
  have f: "faults gapUtilsWorld = []" by (simp add: gapUtilsWorld_def)
  show ?thesis
    by (simp add: loadFromChunks_nofault[OF f])
       (simp add: gapUtilsWorld_def items_def storageArea_def metaKey_def exKey_def)
qed

text \<open>
  Whatever the storage calls do, \<^verbatim>\<open>loadFromChunks\<close> returns \<^verbatim>\<open>null\<close> only when the store has no
  metadata entry for the key.
\<close>

lemma storage_get_Inr:
  assumes "storage_get a k w = (Inr v, w1)"
  shows "v = map_of (items a w) k" and "items b w1 = items b w"
  using assms by (auto simp: storage_get_def case_prod_beta split: option.splits)

lemma loadFromChunks_null_only_without_metadata:
  assumes "fst (loadFromChunks decompress key l w) = Inr None"
  shows "\<not> truthy (map_of (items (storageArea l) w) (metaKey key))"
proof -
  let ?a = "storageArea l"
  obtain r0 w0 where s: "storage_get ?a (metaKey key) w = (r0, w0)"
    by (cases "storage_get ?a (metaKey key) w")
  show ?thesis
  proof (cases r0)
    case (Inl f)
    with assms s show ?thesis by (simp add: loadFromChunks_def)
  next
    case (Inr mv)
    from storage_get_Inr(1)[OF s[unfolded Inr]] have mv: "mv = map_of (items ?a w) (metaKey key)" .
    show ?thesis
    proof (rule ccontr)
      assume "\<not> \<not> truthy (map_of (items ?a w) (metaKey key))"
      then have t: "truthy mv" using mv by simp
      then show False using assms s Inr
        by (auto simp: loadFromChunks_def split: prod.splits sum.splits)
    qed
  qed
qed

text \<open>
  A key that had no metadata entry has none after a \<^verbatim>\<open>saveWithChunks\<close> that failed, whichever
  fragments it wrote, and a load of it finds nothing.
\<close>

lemma failed_first_save_stays_absent:
  assumes "map_of (items (storageArea l) w) (metaKey key) = None"
      and "saveWithChunks compress now key d l w = Some (Inl e, w1)"
  shows "fst (loadFromChunks decompress key l (w1\<lparr>faults := []\<rparr>)) = Inr None"
proof -
  have m: "map_of (items (storageArea l) w1) (metaKey key) = None"
  proof (cases "compress d")
    case (Inl e')
    with assms show ?thesis by (simp add: saveWithChunks_def)
  next
    case (Inr c)
    obtain cs where sp: "splitChunks chunkSize_utils c = Some cs"
      using splitChunks_total[OF chunkSize_utils_pos] by blast
    from saveWithChunks_spec[where compress=compress and d=d and now=now and key=key and l=l and w=w,
        OF Inr sp] assms(2)
    have "map_of (items (storageArea l) w1) (metaKey key) = map_of (items (storageArea l) w) (metaKey key)"
      by auto
    with assms(1) show ?thesis by simp
  qed
  have f: "faults (w1\<lparr>faults := []\<rparr>) = []" by simp
  show ?thesis unfolding loadFromChunks_nofault[OF f] using m by simp
qed

section \<open>The retention sweep\<close>

lemma firstPass_fst:
  "fst (firstPass now es (tr, pks)) =
     tr @ concat (map (\<lambda>kv. if startsWith (fst kv) ''profile_'' \<and> expired now (snd kv)
                              then fst kv # associatedChunks (snd kv) else []) es)"
  by (induction es arbitrary: tr pks) auto

lemma firstPass_snd:
  "set (snd (firstPass now es (tr, pks))) =
     set pks \<union> {k \<in> fst ` set es. startsWith k ''profile_''}"
proof (induction es arbitrary: tr pks)
  case Nil
  then show ?case by simp
next
  case (Cons e es)
  obtain k v where e: "e = (k, v)" by (cases e)
  show ?case
  proof (cases "startsWith k ''profile_''")
    case False
    then show ?thesis using Cons.IH[of tr pks] e by auto
  next
    case True
    let ?tr = "if expired now v then tr @ [k] @ associatedChunks v else tr"
    let ?pks = "if k \<in> set pks then pks else pks @ [k]"
    have "firstPass now (e # es) (tr, pks) = firstPass now es (?tr, ?pks)"
      using True e by simp
    then have "set (snd (firstPass now (e # es) (tr, pks)))
       = set ?pks \<union> {k \<in> fst ` set es. startsWith k ''profile_''}"
      using Cons.IH[of ?tr ?pks] by simp
    also have "\<dots> = set pks \<union> {k \<in> fst ` set (e # es). startsWith k ''profile_''}"
      using True e by auto
    finally show ?thesis .
  qed
qed

lemma secondPass_eq:
  "secondPass st pks es tr =
     tr @ filter (\<lambda>k. startsWith k CHUNK_PREFIX \<and> \<not> list_ex (referencesChunk st k) pks) (map fst es)"
  by (induction es arbitrary: tr) auto

lemma sweepList_eq:
  "sweepList now st =
     concat (map (\<lambda>kv. if startsWith (fst kv) ''profile_'' \<and> expired now (snd kv)
                              then fst kv # associatedChunks (snd kv) else []) st)
     @ filter (\<lambda>k. startsWith k CHUNK_PREFIX
                 \<and> \<not> (\<exists>pk \<in> fst ` set st. startsWith pk ''profile_'' \<and> referencesChunk st k pk))
          (map fst st)"
proof -
  obtain tr pks where fp: "firstPass now st ([], []) = (tr, pks)" by (cases "firstPass now st ([], [])")
  from firstPass_fst[of now st "[]" "[]"] fp
  have tr: "tr = concat (map (\<lambda>kv. if startsWith (fst kv) ''profile_'' \<and> expired now (snd kv)
                              then fst kv # associatedChunks (snd kv) else []) st)" by simp
  from firstPass_snd[of now st "[]" "[]"] fp
  have pks: "set pks = {k \<in> fst ` set st. startsWith k ''profile_''}" by simp
  have "\<And>k. list_ex (referencesChunk st k) pks
         = (\<exists>pk \<in> fst ` set st. startsWith pk ''profile_'' \<and> referencesChunk st k pk)"
    using pks by (auto simp: list_ex_iff)
  then show ?thesis using fp tr by (simp add: sweepList_def secondPass_eq)
qed

lemma sweepList_set:
  "set (sweepList now st) =
      {k. \<exists>v. (k, v) \<in> set st \<and> startsWith k ''profile_'' \<and> expired now v}
    \<union> {c. \<exists>k v. (k, v) \<in> set st \<and> startsWith k ''profile_'' \<and> expired now v
                \<and> c \<in> set (associatedChunks v)}
    \<union> {k. k \<in> fst ` set st \<and> startsWith k CHUNK_PREFIX
           \<and> \<not> (\<exists>pk \<in> fst ` set st. startsWith pk ''profile_'' \<and> referencesChunk st k pk)}"
  unfolding sweepList_eq by (auto split: if_splits)

lemma cleanupStorage_nofault:
  assumes "faults w = []"
  shows "sync_items (cleanupStorage now w) =
           filter (\<lambda>kv. fst kv \<notin> set (sweepList now (sync_items w))) (sync_items w)"
    and "local_items (cleanupStorage now w) = local_items w"
proof -
  have e: "sweepList now (sync_items w) = [] \<Longrightarrow>
        filter (\<lambda>kv. fst kv \<notin> set (sweepList now (sync_items w))) (sync_items w) = sync_items w"
    by simp
  show "sync_items (cleanupStorage now w) =
           filter (\<lambda>kv. fst kv \<notin> set (sweepList now (sync_items w))) (sync_items w)"
    using assms e
    by (cases "sweepList now (sync_items w) = []")
       (simp_all add: cleanupStorage_def storage_get_all_def storage_remove_def next_fault_def
          record_event_def put_items_def items_def Let_def)
  show "local_items (cleanupStorage now w) = local_items w"
    using assms
    by (simp add: cleanupStorage_def storage_get_all_def storage_remove_def next_fault_def
          record_event_def put_items_def items_def Let_def)
qed

lemma startsWith_eval:
  "startsWith ''profile_old_example.com'' ''profile_''"
  "startsWith ''profile_work_example.com'' ''profile_''"
  "\<not> startsWith ''backup_work'' ''profile_''"
  "\<not> startsWith ''chunk_profile_old_example.com_0'' ''profile_''"
  "\<not> startsWith ''chunk_profile_work_example.com_0'' ''profile_''"
  "\<not> startsWith ''chunk_profile_work_example.com_1'' ''profile_''"
  "\<not> startsWith ''chunk_profile_gone_example.com_0'' ''profile_''"
  "\<not> startsWith ''chunk_backup_work_0'' ''profile_''"
  "\<not> startsWith ''profile_old_example.com'' CHUNK_PREFIX"
  "\<not> startsWith ''profile_work_example.com'' CHUNK_PREFIX"
  "\<not> startsWith ''backup_work'' CHUNK_PREFIX"
  "startsWith ''chunk_profile_old_example.com_0'' CHUNK_PREFIX"
  "startsWith ''chunk_profile_work_example.com_0'' CHUNK_PREFIX"
  "startsWith ''chunk_profile_work_example.com_1'' CHUNK_PREFIX"
  "startsWith ''chunk_profile_gone_example.com_0'' CHUNK_PREFIX"
  "startsWith ''chunk_backup_work_0'' CHUNK_PREFIX"
  "\<not> startsWith ''archive_2020'' ''profile_''"
  "\<not> startsWith ''archive_2020'' CHUNK_PREFIX"
  "\<not> startsWith ''chunk_archive_2020_0'' ''profile_''"
  "startsWith ''chunk_archive_2020_0'' CHUNK_PREFIX"
  by (simp_all add: startsWith_def CHUNK_PREFIX_def)

lemma sweepList_sweepWorld:
  "sweepList sweepNow (sync_items sweepWorld) =
     [''profile_old_example.com'', ''chunk_profile_old_example.com_0'',
      ''chunk_profile_gone_example.com_0'', ''chunk_backup_work_0'', ''chunk_archive_2020_0'']"
  by (simp add: sweepList_def sweepWorld_def sweepNow_def metaOf_def startsWith_eval expired_def
      maxAge_def associatedChunks_def referencesChunk_def)

text \<open>
  Claim C6, as the code has it. One sweep deletes exactly: every entry under a key beginning
  with \<^verbatim>\<open>profile_\<close> whose \<^verbatim>\<open>lastAccessed\<close> is present, non-zero and more than 30 days before
  the sweep; the \<^verbatim>\<open>chunkKeys\<close> of such an entry when it is \<^verbatim>\<open>isChunked\<close>; and every key
  beginning with \<^verbatim>\<open>chunk_\<close> that no \<^verbatim>\<open>profile_\<close> entry of the snapshot taken at the start of
  the sweep lists in its \<^verbatim>\<open>chunkKeys\<close>. When no storage call is rejected the store afterwards is
  the store before without these keys.
\<close>

theorem sweep_deletes_exactly:
  "set (sweepList now st) =
      {k. \<exists>v. (k, v) \<in> set st \<and> startsWith k ''profile_'' \<and> expired now v}
    \<union> {c. \<exists>k v. (k, v) \<in> set st \<and> startsWith k ''profile_'' \<and> expired now v
                \<and> c \<in> set (associatedChunks v)}
    \<union> {k. k \<in> fst ` set st \<and> startsWith k CHUNK_PREFIX
           \<and> \<not> (\<exists>pk \<in> fst ` set st. startsWith pk ''profile_'' \<and> referencesChunk st k pk)}
 \<and> (faults w = [] \<longrightarrow>
       sync_items (cleanupStorage now w) =
         filter (\<lambda>kv. fst kv \<notin> set (sweepList now (sync_items w))) (sync_items w)
     \<and> local_items (cleanupStorage now w) = local_items w)"
  using sweepList_set[of now st] cleanupStorage_nofault[of w now] by simp

text \<open>The example store after one sweep, as an instance of the theorem.\<close>

theorem sweep_deletes_exactly_witness:
  "faults sweepWorld = []
 \<and> sync_items (cleanupStorage sweepNow sweepWorld) =
      [(''profile_work_example.com'',
          metaOf (Some 1699999999000)
            [''chunk_profile_work_example.com_0'', ''chunk_profile_work_example.com_1'']),
       (''chunk_profile_work_example.com_0'', Str ''w0''),
       (''chunk_profile_work_example.com_1'', Str ''w1''),
       (''backup_work'', metaOf None [''chunk_backup_work_0'']),
       (''archive_2020'', metaOf (Some 1600000000000) [''chunk_archive_2020_0''])]"
proof -
  have f: "faults sweepWorld = []" by (simp add: sweepWorld_def)
  from sweep_deletes_exactly[of sweepNow "[]" sweepWorld] f
  have "sync_items (cleanupStorage sweepNow sweepWorld) =
         filter (\<lambda>kv. fst kv \<notin> set (sweepList sweepNow (sync_items sweepWorld))) (sync_items sweepWorld)"
    by blast
  then show ?thesis unfolding sweepList_sweepWorld using f by (simp add: sweepWorld_def)
qed

text \<open>
  Claim C6, refuted as stated. A record last used in 2020 under a key that does not begin
  with \<^verbatim>\<open>profile_\<close> is kept by the sweep while the fragment it lists is deleted; and the
  fragment left by a \<^verbatim>\<open>saveWithChunks\<close> whose metadata write was rejected, an orphan under
  \<^verbatim>\<open><key>_chunk_0\<close>, is still there after the sweep.
\<close>

theorem sweep_misses_records_and_orphans:
  "expired sweepNow (metaOf (Some 1600000000000) [''chunk_archive_2020_0''])
 \<and> map_of (sync_items sweepWorld) ''archive_2020''
      = Some (metaOf (Some 1600000000000) [''chunk_archive_2020_0''])
 \<and> map_of (sync_items (cleanupStorage sweepNow sweepWorld)) ''archive_2020''
      = Some (metaOf (Some 1600000000000) [''chunk_archive_2020_0''])
 \<and> map_of (sync_items (cleanupStorage sweepNow sweepWorld)) ''chunk_archive_2020_0'' = None
 \<and> saveWithChunks (\<lambda>v. Inr ''XQAAgAD//////////wA'') 1000 exKey exOld False
      (emptyWorld\<lparr>faults := [None, Some QuotaExceeded]\<rparr>) =
    Some (Inl (StorageError QuotaExceeded),
      \<lparr>sync_items = [(''profile_work_example.com_chunk_0'', Str ''XQAAgAD//////////wA'')],
       local_items = [], faults = [],
       events = [SetOk Sync ''profile_work_example.com_chunk_0'',
                 SetFailed Sync ''profile_work_example.com_meta'' QuotaExceeded]\<rparr>)
 \<and> sync_items (cleanupStorage sweepNow
      \<lparr>sync_items = [(''profile_work_example.com_chunk_0'', Str ''XQAAgAD//////////wA'')],
       local_items = [], faults = [], events = []\<rparr>)
    = [(''profile_work_example.com_chunk_0'', Str ''XQAAgAD//////////wA'')]"
proof -
  have f: "faults sweepWorld = []" by (simp add: sweepWorld_def)
  have a: "expired sweepNow (metaOf (Some 1600000000000) [''chunk_archive_2020_0''])"
    by (simp add: expired_def metaOf_def sweepNow_def maxAge_def)
  have b: "sync_items (cleanupStorage sweepNow sweepWorld) =
      [(''profile_work_example.com'',
          metaOf (Some 1699999999000)
            [''chunk_profile_work_example.com_0'', ''chunk_profile_work_example.com_1'']),
       (''chunk_profile_work_example.com_0'', Str ''w0''),
       (''chunk_profile_work_example.com_1'', Str ''w1''),
       (''backup_work'', metaOf None [''chunk_backup_work_0'']),
       (''archive_2020'', metaOf (Some 1600000000000) [''chunk_archive_2020_0''])]"
    unfolding cleanupStorage_nofault(1)[OF f] sweepList_sweepWorld by (simp add: sweepWorld_def)
  have c: "map_of (sync_items sweepWorld) ''archive_2020''
      = Some (metaOf (Some 1600000000000) [''chunk_archive_2020_0''])"
    by (simp add: sweepWorld_def)
  have sp: "splitChunks chunkSize_utils ''XQAAgAD//////////wA'' = Some [''XQAAgAD//////////wA'']"
    unfolding splitChunks_def chunkSize_utils_def
    by (subst split_loop.simps, simp add: slice_def, subst split_loop.simps, simp)
  have k: "utilsChunkKey ''profile_work_example.com'' 0 = ''profile_work_example.com_chunk_0''"
    by code_simp
  have d: "saveWithChunks (\<lambda>v. Inr ''XQAAgAD//////////wA'') 1000 exKey exOld False
      (emptyWorld\<lparr>faults := [None, Some QuotaExceeded]\<rparr>) =
    Some (Inl (StorageError QuotaExceeded),
      \<lparr>sync_items = [(''profile_work_example.com_chunk_0'', Str ''XQAAgAD//////////wA'')],
       local_items = [], faults = [],
       events = [SetOk Sync ''profile_work_example.com_chunk_0'',
                 SetFailed Sync ''profile_work_example.com_meta'' QuotaExceeded]\<rparr>)"
    unfolding saveWithChunks_def
    by (simp add: sp writeChunksRetrying.simps setWithRetries.simps maxRetries_def storage_set_def
        next_fault_def record_event_def put_items_def emptyWorld_def storageArea_def exKey_def k
        metaKey_def)
  let ?w = "\<lparr>sync_items = [(''profile_work_example.com_chunk_0'', Str ''XQAAgAD//////////wA'')],
       local_items = [], faults = [], events = []\<rparr>"
  have sw: "sweepList sweepNow (sync_items ?w) = []"
    by (simp add: sweepList_def startsWith_def CHUNK_PREFIX_def expired_def)
  have e: "sync_items (cleanupStorage sweepNow ?w)
    = [(''profile_work_example.com_chunk_0'', Str ''XQAAgAD//////////wA'')]"
    using cleanupStorage_nofault(1)[of ?w sweepNow] sw by simp
  from a b c d e show ?thesis by simp
qed

text \<open>
  Claim C5, as the code has it. A fragment key listed in the \<^verbatim>\<open>chunkKeys\<close> of an entry that
  is stored under a key beginning with \<^verbatim>\<open>profile_\<close> and that survives the sweep is not deleted
  by the sweep, provided no other entry lists the same key among its chunks and the fragment
  key does not itself begin with \<^verbatim>\<open>profile_\<close>.
\<close>

theorem live_fragments_survive_sweep:
  assumes "map_of st pk = Some (Obj m)" and "startsWith pk ''profile_''"
      and "chunkKeys m = Some ks" and "c \<in> set ks"
      and survive: "pk \<notin> set (sweepList now st)"
      and noshare: "\<forall>k v. (k, v) \<in> set st \<and> k \<noteq> pk \<longrightarrow> c \<notin> set (associatedChunks v)"
      and notkey: "\<not> startsWith c ''profile_''"
  shows "c \<notin> set (sweepList now st)"
proof
  assume "c \<in> set (sweepList now st)"
  then consider
      (A) v where "(c, v) \<in> set st" "startsWith c ''profile_''" "expired now v"
    | (B) k v where "(k, v) \<in> set st" "startsWith k ''profile_''" "expired now v"
                    "c \<in> set (associatedChunks v)"
    | (C) "c \<in> fst ` set st" "startsWith c CHUNK_PREFIX"
          "\<not> (\<exists>pk \<in> fst ` set st. startsWith pk ''profile_'' \<and> referencesChunk st c pk)"
    unfolding sweepList_set by blast
  then show False
  proof cases
    case A
    with notkey show False by simp
  next
    case B
    show False
    proof (cases "k = pk")
      case False
      with B noshare show False by blast
    next
      case True
      with B have "pk \<in> set (sweepList now st)" unfolding sweepList_set by blast
      with survive show False by simp
    qed
  next
    case C
    have "pk \<in> fst ` set st" using assms(1) by (metis map_of_SomeD fst_conv image_eqI)
    moreover have "referencesChunk st c pk" using assms(1,3,4) by (simp add: referencesChunk_def)
    ultimately show False using C(3) assms(2) by blast
  qed
qed

text \<open>The recently used profile of the example store keeps its fragments.\<close>

theorem live_fragments_survive_sweep_witness:
  "''chunk_profile_work_example.com_0'' \<notin> set (sweepList sweepNow (sync_items sweepWorld))
 \<and> ''profile_work_example.com'' \<notin> set (sweepList sweepNow (sync_items sweepWorld))"
proof -
  let ?m = "\<lparr>lastAccessed = Some 1699999999000, timestamp = Some 1600000000000,
          isChunked = True, chunkCount = Some 2,
          chunkKeys = Some [''chunk_profile_work_example.com_0'', ''chunk_profile_work_example.com_1''],
          chunks = None, cookies = None, page = None\<rparr>"
  have h1: "map_of (sync_items sweepWorld) ''profile_work_example.com'' = Some (Obj ?m)"
    by (simp add: sweepWorld_def metaOf_def)
  have h2: "startsWith ''profile_work_example.com'' ''profile_''" by (simp add: startsWith_def)
  have h3: "chunkKeys ?m
        = Some [''chunk_profile_work_example.com_0'', ''chunk_profile_work_example.com_1'']" by simp
  have h4: "''chunk_profile_work_example.com_0''
        \<in> set [''chunk_profile_work_example.com_0'', ''chunk_profile_work_example.com_1'']" by simp
  have h5: "''profile_work_example.com'' \<notin> set (sweepList sweepNow (sync_items sweepWorld))"
    unfolding sweepList_sweepWorld by simp
  have h6: "\<forall>k v. (k, v) \<in> set (sync_items sweepWorld) \<and> k \<noteq> ''profile_work_example.com''
        \<longrightarrow> ''chunk_profile_work_example.com_0'' \<notin> set (associatedChunks v)"
  proof -
    have "list_all (\<lambda>kv. fst kv \<noteq> ''profile_work_example.com''
        \<longrightarrow> ''chunk_profile_work_example.com_0'' \<notin> set (associatedChunks (snd kv)))
        (sync_items sweepWorld)"
      by code_simp
    then have "\<forall>kv \<in> set (sync_items sweepWorld). fst kv \<noteq> ''profile_work_example.com''
        \<longrightarrow> ''chunk_profile_work_example.com_0'' \<notin> set (associatedChunks (snd kv))"
      by (simp only: list_all_iff)
    then show ?thesis by (metis fst_conv snd_conv)
  qed
  have h7: "\<not> startsWith ''chunk_profile_work_example.com_0'' ''profile_''"
    by (simp add: startsWith_def)
  from live_fragments_survive_sweep[OF h1 h2 h3 h4 h5 h6 h7] h5 show ?thesis by simp
qed

text \<open>
  Claim C5, refuted as stated: the chunked record under \<^verbatim>\<open>backup_work\<close> survives the sweep
  and the fragment its \<^verbatim>\<open>chunkKeys\<close> lists is deleted by it.
\<close>

theorem sweep_deletes_fragment_of_surviving_metadata:
  "map_of (sync_items sweepWorld) ''backup_work'' = Some (metaOf None [''chunk_backup_work_0''])
 \<and> map_of (sync_items sweepWorld) ''chunk_backup_work_0'' = Some (Str ''b0'')
 \<and> map_of (sync_items (cleanupStorage sweepNow sweepWorld)) ''backup_work''
      = Some (metaOf None [''chunk_backup_work_0''])
 \<and> map_of (sync_items (cleanupStorage sweepNow sweepWorld)) ''chunk_backup_work_0'' = None"
proof -
  have f: "faults sweepWorld = []" by (simp add: sweepWorld_def)
  show ?thesis
    unfolding cleanupStorage_nofault(1)[OF f] sweepList_sweepWorld by (simp add: sweepWorld_def)
qed

section \<open>What a profile save reads\<close>

lemma readsUnder_simps [simp]:
  "readsUnder p []"
  "readsUnder p (xs @ ys) = (readsUnder p xs \<and> readsUnder p ys)"
  "readsUnder p (SetOk a k # es) = readsUnder p es"
  "readsUnder p (SetFailed a k f # es) = readsUnder p es"
  "readsUnder p (Sleep n # es) = readsUnder p es"
  "readsUnder p (GetOk a k # es) = (startsWith k p \<and> readsUnder p es)"
  "readsUnder p (GetFailed a k f # es) = (startsWith k p \<and> readsUnder p es)"
  by (simp_all add: readsUnder_def)

lemma startsWith_append [simp]: "startsWith (p @ s) p"
  by (simp add: startsWith_def)

lemma startsWith_self [simp]: "startsWith p p"
  by (simp add: startsWith_def)

lemma storage_get_reads:
  "\<exists>es. events (snd (storage_get a k w)) = events w @ es \<and> (startsWith k p \<longrightarrow> readsUnder p es)"
  by (auto simp: storage_get_def case_prod_beta split: option.splits)

lemma storage_set_reads:
  "\<exists>es. events (snd (storage_set a k v w)) = events w @ es \<and> readsUnder p es"
  by (auto simp: storage_set_def case_prod_beta split: option.splits)

lemma getWithRetries_reads:
  "startsWith k p \<Longrightarrow>
   \<exists>es. events (snd (getWithRetries a k r w)) = events w @ es \<and> readsUnder p es"
proof (induction a k r w rule: getWithRetries.induct)
  case (1 a k retries w)
  show ?case
  proof (cases "retries < maxRetries")
    case False
    then show ?thesis by (subst getWithRetries.simps) simp
  next
    case True
    obtain r0 w0 where s: "storage_get a k w = (r0, w0)" by (cases "storage_get a k w")
    from storage_get_reads[of a k w p] s "1.prems"
    obtain es0 where es0: "events w0 = events w @ es0" "readsUnder p es0" by auto
    show ?thesis
    proof (cases r0)
      case (Inr v)
      with True s es0 show ?thesis by (subst getWithRetries.simps) simp
    next
      case (Inl f)
      show ?thesis
      proof (cases "Suc retries = maxRetries")
        case True
        with \<open>retries < maxRetries\<close> s es0 Inl show ?thesis by (subst getWithRetries.simps) simp
      next
        case False
        from "1.IH"[OF True s[symmetric] _ False "1.prems", of f] Inl
        obtain es where "events (snd (getWithRetries a k (Suc retries) (sleep (100 * Suc retries) w0)))
            = events (sleep (100 * Suc retries) w0) @ es" "readsUnder p es" by auto
        with True False s es0 Inl show ?thesis
          by (subst getWithRetries.simps) simp
      qed
    qed
  qed
qed

lemma setWithRetries_reads:
  "\<exists>es. events (snd (setWithRetries a k v r w)) = events w @ es \<and> readsUnder p es"
proof (induction a k v r w rule: setWithRetries.induct)
  case (1 a k v retries w)
  show ?case
  proof (cases "retries < maxRetries")
    case False
    then show ?thesis by (subst setWithRetries.simps) simp
  next
    case True
    obtain r0 w0 where s: "storage_set a k v w = (r0, w0)" by (cases "storage_set a k v w")
    from storage_set_reads[of a k v w p] s
    obtain es0 where es0: "events w0 = events w @ es0" "readsUnder p es0" by auto
    show ?thesis
    proof (cases r0)
      case (Inr u)
      with True s es0 show ?thesis by (subst setWithRetries.simps) simp
    next
      case (Inl f)
      show ?thesis
      proof (cases "Suc retries = maxRetries")
        case True
        with \<open>retries < maxRetries\<close> s es0 Inl show ?thesis by (subst setWithRetries.simps) simp
      next
        case False
        from "1.IH"[OF True s[symmetric] _ False, of f] Inl
        obtain es where "events (snd (setWithRetries a k v (Suc retries) (sleep (100 * Suc retries) w0)))
            = events (sleep (100 * Suc retries) w0) @ es" "readsUnder p es" by auto
        with True False s es0 Inl show ?thesis
          by (subst setWithRetries.simps) simp
      qed
    qed
  qed
qed

lemma utilsChunkKey_startsWith [simp]: "startsWith (utilsChunkKey key i) key"
  by (simp add: utilsChunkKey_def)

lemma metaKey_startsWith [simp]: "startsWith (metaKey key) key"
  by (simp add: metaKey_def)

lemma readChunksRetrying_reads:
  "\<exists>es. events (snd (readChunksRetrying a key n i acc w)) = events w @ es \<and> readsUnder key es"
proof (induction a key n i acc w rule: readChunksRetrying.induct)
  case (1 a key n i acc w)
  show ?case
  proof (cases "i < n")
    case False
    then show ?thesis by (subst readChunksRetrying.simps) simp
  next
    case True
    obtain r0 w0 where s: "getWithRetries a (utilsChunkKey key i) 0 w = (r0, w0)"
      by (cases "getWithRetries a (utilsChunkKey key i) 0 w")
    from getWithRetries_reads[of "utilsChunkKey key i" key a 0 w] s
    obtain es0 where es0: "events w0 = events w @ es0" "readsUnder key es0" by auto
    show ?thesis
    proof (cases r0)
      case (Inl f)
      with True s es0 show ?thesis by (subst readChunksRetrying.simps) simp
    next
      case (Inr vs)
      from "1.IH"[OF True s[symmetric] _ , of vs] Inr
      obtain es where "events (snd (readChunksRetrying a key n (Suc i) (acc @ vs) w0)) = events w0 @ es"
        "readsUnder key es" by auto
      with True s es0 Inr show ?thesis by (subst readChunksRetrying.simps) simp
    qed
  qed
qed

lemma writeChunksRetrying_reads:
  "\<exists>es. events (snd (writeChunksRetrying a key cs i w)) = events w @ es \<and> readsUnder p es"
proof (induction a key cs i w rule: writeChunksRetrying.induct)
  case (1 a key cs i w)
  show ?case
  proof (cases "i < length cs")
    case False
    then show ?thesis by (subst writeChunksRetrying.simps) simp
  next
    case True
    obtain r0 w0 where s: "setWithRetries a (utilsChunkKey key i) (Str (cs ! i)) 0 w = (r0, w0)"
      by (cases "setWithRetries a (utilsChunkKey key i) (Str (cs ! i)) 0 w")
    from setWithRetries_reads[of a "utilsChunkKey key i" "Str (cs ! i)" 0 w p] s
    obtain es0 where es0: "events w0 = events w @ es0" "readsUnder p es0" by auto
    show ?thesis
    proof (cases r0)
      case (Inl f)
      with True s es0 show ?thesis by (subst writeChunksRetrying.simps) simp
    next
      case (Inr u)
      from "1.IH"[OF True s[symmetric] _ , of u] Inr
      obtain es where "events (snd (writeChunksRetrying a key cs (Suc i) w0)) = events w0 @ es"
        "readsUnder p es" by auto
      with True s es0 Inr show ?thesis by (subst writeChunksRetrying.simps) simp
    qed
  qed
qed

lemma loadFromChunks_reads:
  "\<exists>es. events (snd (loadFromChunks decompress key l w)) = events w @ es \<and> readsUnder key es"
proof -
  let ?a = "storageArea l"
  obtain r0 w0 where s: "storage_get ?a (metaKey key) w = (r0, w0)"
    by (cases "storage_get ?a (metaKey key) w")
  from storage_get_reads[of ?a "metaKey key" w key] s
  obtain es0 where es0: "events w0 = events w @ es0" "readsUnder key es0" by auto
  show ?thesis
  proof (cases r0)
    case (Inl f)
    with s es0 show ?thesis by (simp add: loadFromChunks_def)
  next
    case (Inr mv)
    show ?thesis
    proof (cases "truthy mv")
      case False
      with s es0 Inr show ?thesis by (simp add: loadFromChunks_def)
    next
      case True
      obtain r1 w1 where rc: "readChunksRetrying ?a key (metaChunks mv) 0 [] w0 = (r1, w1)"
        by (cases "readChunksRetrying ?a key (metaChunks mv) 0 [] w0")
      from readChunksRetrying_reads[of ?a key "metaChunks mv" 0 "[]" w0] rc
      obtain es1 where es1: "events w1 = events w0 @ es1" "readsUnder key es1" by auto
      have "events (snd (loadFromChunks decompress key l w)) = events w1"
        using s Inr True rc by (simp add: loadFromChunks_def split: sum.splits)
      with es0 es1 show ?thesis by simp
    qed
  qed
qed

lemma storageGet_reads:
  "\<exists>es. events (snd (storageGet decompress key l w)) = events w @ es \<and> readsUnder key es"
proof -
  obtain r0 w0 where s: "loadFromChunks decompress key l w = (r0, w0)"
    by (cases "loadFromChunks decompress key l w")
  from loadFromChunks_reads[of decompress key l w] s
  obtain es0 where es0: "events w0 = events w @ es0" "readsUnder key es0" by auto
  show ?thesis
  proof (cases r0)
    case (Inl e)
    with s es0 show ?thesis by (simp add: storageGet_def)
  next
    case (Inr chunked)
    show ?thesis
    proof (cases "truthy chunked")
      case True
      with s es0 Inr show ?thesis by (simp add: storageGet_def)
    next
      case False
      obtain r1 w1 where g: "storage_get (storageArea l) key w0 = (r1, w1)"
        by (cases "storage_get (storageArea l) key w0")
      from storage_get_reads[of "storageArea l" key w0 key] g
      obtain es1 where es1: "events w1 = events w0 @ es1" "readsUnder key es1" by auto
      have "events (snd (storageGet decompress key l w)) = events w1"
        using s Inr False g by (simp add: storageGet_def split: sum.splits)
      with es0 es1 show ?thesis by simp
    qed
  qed
qed

lemma saveWithChunks_reads:
  assumes "saveWithChunks compress now key d l w = Some (r, w1)"
  shows "\<exists>es. events w1 = events w @ es \<and> readsUnder p es"
proof (cases "compress d")
  case (Inl e)
  with assms show ?thesis by (simp add: saveWithChunks_def)
next
  case (Inr c)
  obtain cs where sp: "splitChunks chunkSize_utils c = Some cs"
    using splitChunks_total[OF chunkSize_utils_pos] by blast
  let ?a = "storageArea l"
  obtain r0 w0 where wc: "writeChunksRetrying ?a key cs 0 w = (r0, w0)"
    by (cases "writeChunksRetrying ?a key cs 0 w")
  from writeChunksRetrying_reads[of ?a key cs 0 w p] wc
  obtain es0 where es0: "events w0 = events w @ es0" "readsUnder p es0" by auto
  show ?thesis
  proof (cases r0)
    case (Inl f)
    with assms Inr sp wc es0 show ?thesis by (simp add: saveWithChunks_def)
  next
    case ok: (Inr u)
    let ?m = "Obj (empty_obj\<lparr>chunks := Some (length cs), timestamp := Some now\<rparr>)"
    obtain r2 w2 where st: "storage_set ?a (metaKey key) ?m w0 = (r2, w2)"
      by (cases "storage_set ?a (metaKey key) ?m w0")
    from storage_set_reads[of ?a "metaKey key" ?m w0 p] st
    obtain es1 where es1: "events w2 = events w0 @ es1" "readsUnder p es1" by auto
    have "w1 = w2" using assms Inr sp wc ok st by (simp add: saveWithChunks_def split: sum.splits)
    with es0 es1 show ?thesis by simp
  qed
qed

lemma storageSet_reads:
  assumes "storageSet compress now key v l w = Some (r, w1)"
  shows "\<exists>es. events w1 = events w @ es \<and> readsUnder p es"
proof (cases "compress v")
  case (Inl e)
  with assms show ?thesis by (simp add: storageSet_def)
next
  case (Inr c)
  show ?thesis
  proof (cases "length c > 8000")
    case True
    with assms Inr have "saveWithChunks compress now key v l w = Some (r, w1)"
      by (simp add: storageSet_def)
    then show ?thesis by (rule saveWithChunks_reads)
  next
    case False
    from storage_set_reads[of "storageArea l" key "Str c" w p]
    obtain es where es: "events (snd (storage_set (storageArea l) key (Str c) w)) = events w @ es"
      "readsUnder p es" by auto
    have "w1 = snd (storage_set (storageArea l) key (Str c) w)"
      using assms Inr False by (auto simp: storageSet_def split: prod.splits sum.splits)
    with es show ?thesis by simp
  qed
qed

lemma updateDomainProfiles_reads:
  assumes "updateDomainProfiles compress decompress now profileName mainDomain w = Some (r, w1)"
  shows "\<exists>es. events w1 = events w @ es \<and> readsUnder (domainKeyOf mainDomain) es"
proof -
  let ?k = "domainKeyOf mainDomain"
  obtain r0 w0 where g: "storageGet decompress ?k False w = (r0, w0)"
    by (cases "storageGet decompress ?k False w")
  from storageGet_reads[of decompress ?k False w] g
  obtain es0 where es0: "events w0 = events w @ es0" "readsUnder ?k es0" by auto
  show ?thesis
  proof (cases r0)
    case (Inl e)
    with assms g es0 show ?thesis by (simp add: updateDomainProfiles_def)
  next
    case (Inr found)
    show ?thesis
    proof (cases "\<exists>xs. (if truthy found then found else Some (Arr [])) = Some (Arr xs)")
      case False
      then have "w1 = w0" using assms g Inr
        by (auto simp: updateDomainProfiles_def split: option.splits jsval.splits if_splits)
      with es0 show ?thesis by simp
    next
      case True
      then obtain xs where xs: "(if truthy found then found else Some (Arr [])) = Some (Arr xs)" by blast
      show ?thesis
      proof (cases "list_ex (\<lambda>p. fst p = profileName) xs")
        case True
        then have "w1 = w0" using assms g Inr xs by (simp add: updateDomainProfiles_def)
        with es0 show ?thesis by simp
      next
        case False
        then have "storageSet compress now ?k (Arr (xs @ [(profileName, now)])) False w0 = Some (r, w1)"
          using assms g Inr xs by (simp add: updateDomainProfiles_def)
        from storageSet_reads[OF this, of ?k]
        obtain es1 where "events w1 = events w0 @ es1" "readsUnder ?k es1" by auto
        with es0 show ?thesis by simp
      qed
    qed
  qed
qed

lemma saveProfileState_reads:
  assumes "saveProfileState compress decompress now collected profileName domain w = Some (r, w1)"
  shows "\<exists>es. events w1 = events w @ es
           \<and> readsUnder (domainKeyOf (getMainDomain_background domain)) es"
proof (cases "profileName = [] \<or> domain = []")
  case True
  with assms show ?thesis by (simp add: saveProfileState_def)
next
  case False
  let ?md = "getMainDomain_background domain"
  let ?pk = "profileKeyOf profileName ?md"
  show ?thesis
  proof (cases collected)
    case (Inl e)
    with assms False show ?thesis by (simp add: saveProfileState_def)
  next
    case (Inr originalData)
    show ?thesis
    proof (cases "compress (Obj originalData)")
      case (Inl e)
      with assms False Inr show ?thesis by (simp add: saveProfileState_def)
    next
      case c: (Inr compressed)
      let ?first = "(if length compressed > CHROME_SYNC_QUOTA_BYTES_PER_ITEM
                            then saveWithChunks compress now ?pk (Obj originalData) False w
                            else Some
                              (case storage_set Local ?pk (Str compressed) w of
                                 (Inl f, w1) \<Rightarrow> (Inl (StorageError f), w1)
                               | (Inr u, w1) \<Rightarrow> (Inr (), w1)))"
      from assms False Inr c obtain r0 w0 where f: "?first = Some (r0, w0)"
        by (auto simp: saveProfileState_def Let_def split: option.splits)
      have e0: "\<exists>es. events w0 = events w @ es \<and> readsUnder (domainKeyOf ?md) es"
      proof (cases "length compressed > CHROME_SYNC_QUOTA_BYTES_PER_ITEM")
        case True
        with f have "saveWithChunks compress now ?pk (Obj originalData) False w = Some (r0, w0)" by simp
        then show ?thesis by (rule saveWithChunks_reads)
      next
        case False
        from storage_set_reads[of Local ?pk "Str compressed" w "domainKeyOf ?md"]
        obtain es where es: "events (snd (storage_set Local ?pk (Str compressed) w)) = events w @ es"
          "readsUnder (domainKeyOf ?md) es" by auto
        have "w0 = snd (storage_set Local ?pk (Str compressed) w)"
          using f False by (auto split: prod.splits sum.splits)
        with es show ?thesis by simp
      qed
      then obtain es0 where es0: "events w0 = events w @ es0" "readsUnder (domainKeyOf ?md) es0" by auto
      show ?thesis
      proof (cases r0)
        case (Inl e)
        with assms False Inr c f have "w1 = w0" by (simp add: saveProfileState_def Let_def)
        with es0 show ?thesis by simp
      next
        case ok: (Inr u)
        with assms False Inr c f
        have "updateDomainProfiles compress decompress now profileName ?md w0 = Some (r, w1)"
          by (simp add: saveProfileState_def Let_def)
        from updateDomainProfiles_reads[OF this]
        obtain es1 where "events w1 = events w0 @ es1" "readsUnder (domainKeyOf ?md) es1" by auto
        with es0 show ?thesis by simp
      qed
    qed
  qed
qed

lemma domain_key_not_profile:
  "startsWith k (domainKeyOf md) \<Longrightarrow> \<not> startsWith k ''profile_''"
  by (cases k) (auto simp: startsWith_def domainKeyOf_def)

text \<open>
  No run of \<^verbatim>\<open>saveProfileState\<close> reads a key that begins with \<^verbatim>\<open>profile_\<close>: every single-key
  read it issues is of the domain's profile list, in one of its layouts. The record just
  written is never read back.
\<close>

lemma saveProfileState_reads_no_profile_key:
  assumes "saveProfileState compress decompress now collected profileName domain w = Some (r, w1)"
  shows "\<exists>es. events w1 = events w @ es
           \<and> list_all (\<lambda>e. case readKey e of None \<Rightarrow> True
                                          | Some k \<Rightarrow> \<not> startsWith k ''profile_'') es"
proof -
  from saveProfileState_reads[OF assms]
  obtain es where es: "events w1 = events w @ es"
    "readsUnder (domainKeyOf (getMainDomain_background domain)) es" by blast
  have "list_all (\<lambda>e. case readKey e of None \<Rightarrow> True
                                          | Some k \<Rightarrow> \<not> startsWith k ''profile_'') es"
    using es(2) unfolding readsUnder_def list_all_iff
    by (auto split: option.splits dest: domain_key_not_profile)
  with es(1) show ?thesis by blast
qed

lemma getMainDomain_background_www: "getMainDomain_background ''www.example.com'' = ''example.com''"
  by (simp add: getMainDomain_background_def specialTlds_background_def sliceLast_def)

text \<open>
  Claim C8, at a failing input. Saving the example profile into empty stores reports success;
  the trace of the save holds no read of the profile key, and the verification the code
  defines, run on the store the save leaves, fails: the record went to the local area and
  \<^verbatim>\<open>verifySaveSuccess\<close> looks in the sync area.
\<close>

theorem save_succeeds_without_verification:
  "saveProfileState exCompress (\<lambda>s. Inl CodecError) 1700000000000 (Inr exProfile)
      ''work'' ''www.example.com'' emptyWorld =
     Some (Inr (),
       \<lparr>sync_items = [(''domain_profiles_example.com'', Str ''XQAAgAD//////////wAtgJhGv/xA'')],
        local_items = [(''profile_work_example.com'', Str ''XQAAgAD//////////wA9iImGVFs='')],
        faults = [],
        events = [SetOk Local ''profile_work_example.com'',
                  GetOk Sync ''domain_profiles_example.com_meta'',
                  GetOk Sync ''domain_profiles_example.com'',
                  SetOk Sync ''domain_profiles_example.com'']\<rparr>)
 \<and> fst (verifySaveSuccess ''work'' ''www.example.com'' exProfile
       \<lparr>sync_items = [(''domain_profiles_example.com'', Str ''XQAAgAD//////////wAtgJhGv/xA'')],
        local_items = [(''profile_work_example.com'', Str ''XQAAgAD//////////wA9iImGVFs='')],
        faults = [],
        events = [SetOk Local ''profile_work_example.com'',
                  GetOk Sync ''domain_profiles_example.com_meta'',
                  GetOk Sync ''domain_profiles_example.com'',
                  SetOk Sync ''domain_profiles_example.com'']\<rparr>) = False"
  by (simp add: saveProfileState_def updateDomainProfiles_def storageGet_def storageSet_def
      loadFromChunks_def verifySaveSuccess_def getMainDomain_background_www profileKeyOf_def
      domainKeyOf_def metaKey_def storageArea_def storage_set_def storage_get_def next_fault_def
      record_event_def put_items_def items_def emptyWorld_def exProfile_def
      CHROME_SYNC_QUOTA_BYTES_PER_ITEM_def Let_def)

section \<open>Compressing and decompressing\<close>

lemma b64_table: "list_all (\<lambda>n. b64val (b64char n) = Some n \<and> b64char n \<noteq> CHR ''=''
     \<and> \<not> asciiWhitespace (b64char n)) [0..<64]"
  by code_simp

lemma b64val_b64char: "n < 64 \<Longrightarrow> b64val (b64char n) = Some n"
  using b64_table by (simp add: list_all_iff)

lemma b64char_not_pad: "n < 64 \<Longrightarrow> b64char n \<noteq> CHR ''=''"
  using b64_table by (simp add: list_all_iff)

lemma b64char_not_ws: "n < 64 \<Longrightarrow> \<not> asciiWhitespace (b64char n)"
  using b64_table by (simp add: list_all_iff)

lemma b64encode_eq: "b64encode s = map b64char (sextets s) @ padding s"
  by (induction s rule: sextets.induct) simp_all

lemma sextet_bounds:
  fixes a b c :: nat
  assumes "a < 256" "b < 256" "c < 256"
  shows "a div 4 < 64" "(a mod 4) * 16 + b div 16 < 64" "(b mod 16) * 4 + c div 64 < 64"
    "c mod 64 < 64" "(b mod 16) * 4 < 64" "(a mod 4) * 16 < 64"
proof -
  have m4: "a mod 4 \<le> 3" by (simp add: Suc_leI le_simps(2) numeral_3_eq_3)
  have m16: "b mod 16 \<le> 15"
  proof -
    have "b mod 16 < 16" by simp
    then show ?thesis by linarith
  qed
  have d16: "b div 16 \<le> 15" using assms(2) by (simp add: less_mult_imp_div_less Suc_leI le_simps(2))
  have d64: "c div 64 \<le> 3" using assms(3) by (simp add: less_mult_imp_div_less Suc_leI le_simps(2))
  show "a div 4 < 64" using assms(1) by (simp add: less_mult_imp_div_less)
  show "(a mod 4) * 16 + b div 16 < 64" using m4 d16 by linarith
  show "(b mod 16) * 4 + c div 64 < 64" using m16 d64 by linarith
  show "c mod 64 < 64" by simp
  show "(b mod 16) * 4 < 64" using m16 by linarith
  show "(a mod 4) * 16 < 64" using m4 by linarith
qed

lemma sextet_inverse:
  fixes a b c :: nat
  assumes "a < 256" "b < 256" "c < 256"
  shows "a div 4 * 4 + ((a mod 4) * 16 + b div 16) div 16 = a"
    "((a mod 4) * 16 + b div 16) mod 16 * 16 + ((b mod 16) * 4 + c div 64) div 4 = b"
    "((b mod 16) * 4 + c div 64) mod 4 * 64 + c mod 64 = c"
    "((a mod 4) * 16 + b div 16) mod 16 * 16 + ((b mod 16) * 4) div 4 = b"
    "a div 4 * 4 + ((a mod 4) * 16) div 16 = a"
proof -
  have d16: "b div 16 < 16" using assms(2) by (simp add: less_mult_imp_div_less)
  have d64: "c div 64 < 4" using assms(3) by (simp add: less_mult_imp_div_less)
  have x1: "((a mod 4) * 16 + b div 16) div 16 = a mod 4" using d16 by simp
  have x2: "((a mod 4) * 16 + b div 16) mod 16 = b div 16" using d16 by simp
  have x3: "((b mod 16) * 4 + c div 64) div 4 = b mod 16" using d64 by simp
  have x4: "((b mod 16) * 4 + c div 64) mod 4 = c div 64" using d64 by simp
  show "a div 4 * 4 + ((a mod 4) * 16 + b div 16) div 16 = a" unfolding x1 by simp
  show "((a mod 4) * 16 + b div 16) mod 16 * 16 + ((b mod 16) * 4 + c div 64) div 4 = b"
    unfolding x2 x3 by simp
  show "((b mod 16) * 4 + c div 64) mod 4 * 64 + c mod 64 = c" unfolding x4 by simp
  show "((a mod 4) * 16 + b div 16) mod 16 * 16 + ((b mod 16) * 4) div 4 = b"
    unfolding x2 by simp
  show "a div 4 * 4 + ((a mod 4) * 16) div 16 = a" by simp
qed

lemma sextets_lt: "\<forall>u \<in> set s. u < 256 \<Longrightarrow> \<forall>x \<in> set (sextets s). x < 64"
proof (induction s rule: sextets.induct)
  case (1 a b c rest)
  then have "a < 256" "b < 256" "c < 256" by simp_all
  from sextet_bounds[OF this] 1 show ?case by simp
next
  case (2 a b)
  then have "a < 256" "b < 256" by simp_all
  from sextet_bounds[OF this this(1)] show ?case by simp
next
  case (3 a)
  then have "a < 256" by simp
  from sextet_bounds[OF this this this] show ?case by simp
next
  case 4
  then show ?case by simp
qed

lemma b64decode_sextets: "\<forall>u \<in> set s. u < 256 \<Longrightarrow> b64decode (sextets s) = Some s"
proof (induction s rule: sextets.induct)
  case (1 a b c rest)
  then have lt: "a < 256" "b < 256" "c < 256" and r: "b64decode (sextets rest) = Some rest"
    by simp_all
  from sextet_inverse(1-3)[OF lt] r show ?case by simp
next
  case (2 a b)
  then have lt: "a < 256" "b < 256" by simp_all
  from sextet_inverse(1,4)[OF lt lt(1)] show ?case by simp
next
  case (3 a)
  then have "a < 256" by simp
  from sextet_inverse(5)[OF this this this] show ?case by simp
next
  case 4
  then show ?case by simp
qed

lemma sextets_padding_length:
  "(length (sextets s) + length (padding s)) mod 4 = 0 \<and> length (sextets s) mod 4 \<noteq> 1
     \<and> (padding s \<noteq> [] \<longrightarrow> sextets s \<noteq> [])
     \<and> (padding s = [] \<or> padding s = ''='' \<or> padding s = ''=='')"
  by (induction s rule: sextets.induct) simp_all

lemma those_b64val: "\<forall>x \<in> set xs. x < 64 \<Longrightarrow> those (map b64val (map b64char xs)) = Some xs"
  by (induction xs) (simp_all add: b64val_b64char)

lemma stripPadding_encoded:
  assumes lt: "\<forall>x \<in> set xs. x < 64"
      and len: "(length xs + length pad) mod 4 = 0"
      and ne: "pad \<noteq> [] \<longrightarrow> xs \<noteq> []"
      and pad: "pad = [] \<or> pad = ''='' \<or> pad = ''==''"
  shows "stripPadding (map b64char xs @ pad) = map b64char xs"
proof -
  have lastne: "xs \<noteq> [] \<Longrightarrow> last (map b64char xs) \<noteq> CHR ''=''"
    using lt by (simp add: last_map b64char_not_pad)
  from pad consider "pad = []" | "pad = ''=''" | "pad = ''==''" by blast
  then show ?thesis
  proof cases
    case 1
    then show ?thesis using lastne by (cases "xs = []") (simp_all add: stripPadding_def)
  next
    case 2
    with ne have x: "xs \<noteq> []" by simp
    with 2 len lastne show ?thesis by (simp add: stripPadding_def)
  next
    case 3
    with ne have x: "xs \<noteq> []" by simp
    have "map b64char xs @ ''=='' = (map b64char xs @ ''='') @ ''=''" by simp
    then have b: "butlast (map b64char xs @ ''=='') = map b64char xs @ ''=''"
      by (simp only: butlast_snoc)
    show ?thesis using 3 len x b by (simp add: stripPadding_def)
  qed
qed

lemma atob_b64encode:
  assumes "\<forall>u \<in> set s. u < 256"
  shows "atob (b64encode s) = Some s"
proof -
  note sl = sextets_lt[OF assms]
  note sp = sextets_padding_length[of s]
  have pad_ws: "filter (\<lambda>c. \<not> asciiWhitespace c) (padding s) = padding s"
    using sp by (auto simp: asciiWhitespace_def)
  have nows: "filter (\<lambda>c. \<not> asciiWhitespace c) (b64encode s) = b64encode s"
    unfolding b64encode_eq using sl pad_ws by (simp add: filter_map comp_def b64char_not_ws)
  have strip: "stripPadding (b64encode s) = map b64char (sextets s)"
    unfolding b64encode_eq using sl sp by (intro stripPadding_encoded) simp_all
  show ?thesis
    using sp those_b64val[OF sl] b64decode_sextets[OF assms]
    by (simp add: atob_def nows strip)
qed

lemma btoa_atob:
  "list_all (\<lambda>u. u < 256) s \<Longrightarrow> \<exists>z. btoa s = Some z \<and> atob z = Some s"
  by (simp add: btoa_def atob_b64encode list_all_iff)

lemma fromCharCodes_bytes:
  assumes "\<forall>x \<in> set c. 0 \<le> x \<and> x < 256"
  shows "list_all (\<lambda>u. u < 256) (fromCharCodes c)"
    and "map (\<lambda>u. int (u mod 256)) (fromCharCodes c) = c"
proof -
  have e: "\<And>x. x \<in> set c \<Longrightarrow> nat (x mod 65536) = nat x \<and> nat x < 256 \<and> int (nat x mod 256) = x"
    using assms by auto
  show "list_all (\<lambda>u. u < 256) (fromCharCodes c)"
    using e by (simp add: fromCharCodes_def list_all_iff)
  show "map (\<lambda>u. int (u mod 256)) (fromCharCodes c) = c"
    unfolding fromCharCodes_def map_map
  proof (rule map_idI)
    fix x assume "x \<in> set c"
    from e[OF this] show "((\<lambda>u. int (u mod 256)) \<circ> (\<lambda>n. nat (n mod 65536))) x = x"
      by (metis comp_apply)
  qed
qed

lemma utf8_bytes: "x \<in> set (utf8 c) \<Longrightarrow> 0 \<le> x \<and> x < 256"
proof -
  assume x: "x \<in> set (utf8 c)"
  have u: "(of_char c :: nat) < 256" by simp
  have d: "(of_char c :: nat) div 64 < 4" using u by (simp add: less_mult_imp_div_less)
  have m: "(of_char c :: nat) mod 64 < 64" by simp
  from x d m u show ?thesis by (auto simp: utf8_def Let_def split: if_splits)
qed

lemma jsonSerialize_isBytes: "isBytes (jsonSerialize d)"
  unfolding isBytes_def jsonSerialize_def textEncode_def list_all_iff
  using utf8_bytes by (auto split: option.splits)

lemma plainChar_quote_utf8:
  assumes "list_all plainChar s"
  shows "concat (map utf8 (concat (map quoteChar s))) = map (\<lambda>c. int (of_char c)) s"
  using assms
proof (induction s)
  case Nil
  then show ?case by simp
next
  case (Cons c s)
  then have p: "plainChar c" and r: "list_all plainChar s" by simp_all
  from p have lo: "32 \<le> (of_char c :: nat)" and hi: "(of_char c :: nat) < 127"
    and nq: "c \<noteq> CHR 0x22" and nb: "c \<noteq> CHR 0x5C"
    by (simp_all add: plainChar_def)
  have nc: "c \<noteq> CHR 0x08" "c \<noteq> CHR 0x09" "c \<noteq> CHR 0x0A" "c \<noteq> CHR 0x0C" "c \<noteq> CHR 0x0D"
    using lo by auto
  have q: "quoteChar c = [c]" using nq nb nc lo by (simp add: quoteChar_def)
  have u: "utf8 c = [int (of_char c)]" using hi by (simp add: utf8_def Let_def)
  show ?case using q u Cons.IH[OF r] by simp
qed

lemma jsonStringify_plain:
  assumes "list_all plainChar s"
  shows "jsonSerialize (JStr s) = 34 # map (\<lambda>c. int (of_char c)) s @ [34]"
proof -
  have q: "utf8 (CHR 0x22) = [34]" by (simp add: utf8_def Let_def)
  show ?thesis
    unfolding jsonSerialize_def textEncode_def
    using plainChar_quote_utf8[OF assms] q by simp
qed

lemma decode_plain:
  assumes "list_all plainChar s"
  shows "list_all (\<lambda>x. 0 \<le> x \<and> x < 128) (34 # map (\<lambda>c. int (of_char c)) s @ [34])"
    and "map (\<lambda>x. char_of (nat x)) (34 # map (\<lambda>c. int (of_char c)) s @ [34])
           = CHR 0x22 # s @ [CHR 0x22]"
proof -
  have p: "\<And>c. c \<in> set s \<Longrightarrow> int (of_char c) < 128"
  proof -
    fix c assume "c \<in> set s"
    with assms have "plainChar c" by (simp add: list_all_iff)
    then have "(of_char c :: nat) < 127" by (simp only: plainChar_def)
    then have "(of_char c :: nat) < 128" by linarith
    then have "int (of_char c) < int 128" by (simp only: of_nat_less_iff)
    then show "int (of_char c) < 128" by simp
  qed
  show "list_all (\<lambda>x. 0 \<le> x \<and> x < 128) (34 # map (\<lambda>c. int (of_char c)) s @ [34])"
    using p by (simp add: list_all_iff)
  have c: "char_of (nat 34) = CHR 0x22" by code_simp
  have m: "map (\<lambda>x. char_of (nat x)) (map (\<lambda>c. int (of_char c)) s) = s"
    by (simp add: comp_def)
  show "map (\<lambda>x. char_of (nat x)) (34 # map (\<lambda>c. int (of_char c)) s @ [34])
           = CHR 0x22 # s @ [CHR 0x22]"
    using c m by simp
qed

lemma jsonParse_plain:
  assumes "list_all plainChar s"
  shows "jsonParse (CHR 0x22 # s @ [CHR 0x22]) = Some (JStr s)"
proof -
  have body: "butlast (tl (CHR 0x22 # s @ [CHR 0x22])) = s" by (simp add: butlast_append)
  have len: "2 \<le> length (CHR 0x22 # s @ [CHR 0x22])" by simp
  have h: "hd (CHR 0x22 # s @ [CHR 0x22]) = CHR 0x22" by simp
  have l: "last (CHR 0x22 # s @ [CHR 0x22]) = CHR 0x22" by simp
  have ne: "CHR 0x22 # s @ [CHR 0x22] \<noteq> ''null''" "CHR 0x22 # s @ [CHR 0x22] \<noteq> ''true''"
    "CHR 0x22 # s @ [CHR 0x22] \<noteq> ''false''" by simp_all
  show ?thesis
    unfolding jsonParse_def body
    by (simp only: ne len h l assms if_False if_True simp_thms)
qed

text \<open>
  A string of printable ASCII characters without double quote and backslash is read back from
  its serialization.
\<close>

lemma jsonDeserialize_plain_string:
  assumes "list_all plainChar s"
  shows "jsonDeserialize (jsonSerialize (JStr s)) = Some (JStr s)"
  unfolding jsonDeserialize_def jsonStringify_plain[OF assms]
  by (simp only: decode_plain[OF assms] jsonParse_plain[OF assms] if_True)

lemma codec_answer_wrapped:
  assumes "isBytes c"
  shows "\<exists>z. btoa (fromCharCodes c) = Some z \<and> atob z = Some (fromCharCodes c)
            \<and> map (\<lambda>u. int (u mod 256)) (fromCharCodes c) = c"
proof -
  from assms have r: "\<forall>x \<in> set c. 0 \<le> x \<and> x < 256" by (simp add: isBytes_def list_all_iff)
  from btoa_atob[OF fromCharCodes_bytes(1)[OF r]] fromCharCodes_bytes(2)[OF r]
  show ?thesis by blast
qed

text \<open>
  Claim C4. With a codec that meets the contract of the specification, and a value whose
  serialization is read back by the deserializer, \<^verbatim>\<open>compressData\<close> resolves with a string
  and \<^verbatim>\<open>decompressData\<close> of that string resolves with the value: the base64 wrapping that
  the two functions add around the codec loses nothing. It does not hold for every input:
  the serialization of \<^verbatim>\<open>undefined\<close> is not read back, and neither is that of \<^verbatim>\<open>NaN\<close>.
\<close>

theorem compress_decompress_roundtrip:
  assumes codec: "losslessCodec lzma_compress lzma_decompress"
      and bytes: "isBytes (serialize b)"
      and ser: "deserialize (serialize b) = Some b"
  shows "\<exists>z. compressData serialize lzma_compress b = Resolved z
            \<and> decompressData deserialize lzma_decompress z = Resolved b"
proof -
  from codec bytes obtain c where c: "lzma_compress (serialize b) = Some c" "isBytes c"
    "lzma_decompress c = Some (serialize b)"
    unfolding losslessCodec_def by blast
  from codec_answer_wrapped[OF c(2)]
  obtain z where z: "btoa (fromCharCodes c) = Some z" "atob z = Some (fromCharCodes c)"
    "map (\<lambda>u. int (u mod 256)) (fromCharCodes c) = c" by blast
  have "compressData serialize lzma_compress b = Resolved z"
    using c(1) z(1) by (simp add: compressData_def)
  moreover have "decompressData deserialize lzma_decompress z = Resolved b"
    using z(2,3) c(3) ser by (simp add: decompressData_def)
  ultimately show ?thesis by blast
qed

text \<open>
  Three runs with the codec that leaves the bytes as they are: the empty string, a short
  string and a boolean.
\<close>

lemma identity_codec_lossless: "losslessCodec Some Some"
  by (simp add: losslessCodec_def)

theorem compress_decompress_roundtrip_witness:
  "(\<exists>z. compressData jsonSerialize Some (JStr []) = Resolved z
        \<and> decompressData jsonDeserialize Some z = Resolved (JStr []))
 \<and> (\<exists>z. compressData jsonSerialize Some (JStr ''session=1'') = Resolved z
        \<and> decompressData jsonDeserialize Some z = Resolved (JStr ''session=1''))
 \<and> (\<exists>z. compressData jsonSerialize Some (JBool True) = Resolved z
        \<and> decompressData jsonDeserialize Some z = Resolved (JBool True))"
proof -
  have b1: "isBytes (jsonSerialize (JStr []))" by code_simp
  have s1: "jsonDeserialize (jsonSerialize (JStr [])) = Some (JStr [])" by code_simp
  have b2: "isBytes (jsonSerialize (JStr ''session=1''))" by code_simp
  have s2: "jsonDeserialize (jsonSerialize (JStr ''session=1'')) = Some (JStr ''session=1'')"
    by code_simp
  have b3: "isBytes (jsonSerialize (JBool True))" by code_simp
  have s3: "jsonDeserialize (jsonSerialize (JBool True)) = Some (JBool True)" by code_simp
  from compress_decompress_roundtrip[where serialize=jsonSerialize and deserialize=jsonDeserialize
        and b="JStr []", OF identity_codec_lossless b1 s1]
    compress_decompress_roundtrip[where serialize=jsonSerialize and deserialize=jsonDeserialize
        and b="JStr ''session=1''", OF identity_codec_lossless b2 s2]
    compress_decompress_roundtrip[where serialize=jsonSerialize and deserialize=jsonDeserialize
        and b="JBool True", OF identity_codec_lossless b3 s3]
  show ?thesis by blast
qed

text \<open>
  The inputs on which the round trip fails, run with the codec that leaves the bytes as they
  are. \<^verbatim>\<open>JSON.stringify(undefined)\<close> is \<^verbatim>\<open>undefined\<close> and is encoded to no bytes;
  \<^verbatim>\<open>compressData\<close> resolves with the empty string, and in \<^verbatim>\<open>decompressData\<close> of it
  \<^verbatim>\<open>JSON.parse('')\<close> throws after the timer was cleared, so the call never returns.
  \<^verbatim>\<open>NaN\<close> is serialized as \<^verbatim>\<open>null\<close> and comes back as \<^verbatim>\<open>null\<close>.
\<close>

theorem roundtrip_fails_on_undefined_and_NaN:
  "compressData jsonSerialize Some JUndefined = Resolved []
 \<and> decompressData jsonDeserialize Some [] = NeverSettled
 \<and> compressData jsonSerialize Some JNaN = Resolved ''bnVsbA==''
 \<and> decompressData jsonDeserialize Some ''bnVsbA=='' = Resolved JNull"
  by code_simp

text \<open>
  The codec has no part in the first failure: whatever codec meets the contract, an input that
  is serialized to no bytes is compressed, and decompressing the result never returns, because
  the empty text is what reaches \<^verbatim>\<open>JSON.parse\<close>.
\<close>

lemma empty_serialization_never_decompressed:
  assumes codec: "losslessCodec lzma_compress lzma_decompress"
      and empty: "serialize b = []"
      and parse: "deserialize [] = None"
  shows "\<exists>z. compressData serialize lzma_compress b = Resolved z
            \<and> decompressData deserialize lzma_decompress z = NeverSettled"
proof -
  have "isBytes []" by (simp add: isBytes_def)
  with codec obtain c where c: "lzma_compress [] = Some c" "isBytes c" "lzma_decompress c = Some []"
    unfolding losslessCodec_def by blast
  from codec_answer_wrapped[OF c(2)]
  obtain z where z: "btoa (fromCharCodes c) = Some z" "atob z = Some (fromCharCodes c)"
    "map (\<lambda>u. int (u mod 256)) (fromCharCodes c) = c" by blast
  have "compressData serialize lzma_compress b = Resolved z"
    using c(1) z(1) empty by (simp add: compressData_def)
  moreover have "decompressData deserialize lzma_decompress z = NeverSettled"
    using z(2,3) c(3) parse by (simp add: decompressData_def)
  ultimately show ?thesis by blast
qed

lemma undefined_never_decompressed:
  assumes "losslessCodec lzma_compress lzma_decompress"
  shows "\<exists>z. compressData jsonSerialize lzma_compress JUndefined = Resolved z
            \<and> decompressData jsonDeserialize lzma_decompress z = NeverSettled"
proof -
  have e: "jsonSerialize JUndefined = []" by (simp add: jsonSerialize_def textEncode_def)
  have p: "jsonDeserialize [] = None" by (simp add: jsonDeserialize_def jsonParse_def)
  from empty_serialization_never_decompressed[where serialize=jsonSerialize
        and deserialize=jsonDeserialize and b=JUndefined, OF assms e p]
  show ?thesis .
qed

text \<open>
  With such a codec every string of printable ASCII characters without double quote and
  backslash makes the round trip, the empty string among them.
\<close>

lemma plain_string_roundtrip:
  assumes codec: "losslessCodec lzma_compress lzma_decompress" and plain: "list_all plainChar s"
  shows "\<exists>z. compressData jsonSerialize lzma_compress (JStr s) = Resolved z
            \<and> decompressData jsonDeserialize lzma_decompress z = Resolved (JStr s)"
proof -
  from codec jsonSerialize_isBytes[of "JStr s"]
  obtain c where c: "lzma_compress (jsonSerialize (JStr s)) = Some c" "isBytes c"
    "lzma_decompress c = Some (jsonSerialize (JStr s))"
    unfolding losslessCodec_def by blast
  from codec_answer_wrapped[OF c(2)]
  obtain z where z: "btoa (fromCharCodes c) = Some z" "atob z = Some (fromCharCodes c)"
    "map (\<lambda>u. int (u mod 256)) (fromCharCodes c) = c" by blast
  have "compressData jsonSerialize lzma_compress (JStr s) = Resolved z"
    using c(1) z(1) by (simp add: compressData_def)
  moreover have "decompressData jsonDeserialize lzma_decompress z = Resolved (JStr s)"
    using z(2,3) c(3) jsonDeserialize_plain_string[OF plain] by (simp add: decompressData_def)
  ultimately show ?thesis by blast
qed

text \<open>
  The contract's demand that the compressor answer with bytes is needed: a negative number
  in its answer becomes a code unit above 255, \<^verbatim>\<open>btoa\<close> throws inside the message handler
  after the timer was cleared, and \<^verbatim>\<open>compressData\<close> never returns.
\<close>

lemma compressData_signed_byte:
  assumes "lzma_compress (serialize b) = Some c" and "x \<in> set c" and "- 65280 \<le> x" and "x < 0"
  shows "compressData serialize lzma_compress b = NeverSettled"
proof -
  have "(x + 65536) mod 65536 = x + 65536" using assms(3,4) by (intro mod_pos_pos_trivial) simp_all
  then have "x mod 65536 = x + 65536" by simp
  then have "nat (x mod 65536) \<ge> 256" using assms(3) by simp
  then have "\<not> nat (x mod 65536) < 256" by simp
  then have "\<not> list_all (\<lambda>u. u < 256) (fromCharCodes c)"
    using assms(2) unfolding fromCharCodes_def list_all_iff by (metis image_eqI list.set_map)
  then show ?thesis using assms(1) by (simp add: compressData_def btoa_def)
qed

end
